theory Spec2Isabelle
  imports Main "HOL-Library.Word" "HOL-Library.Multiset"
begin

unbundle bit_operations_syntax

section \<open>Data model\<close>

text \<open>
  The engine is built for Windows, where \<^verbatim>\<open>wchar_t\<close> is an unsigned 16-bit code unit
  and \<^verbatim>\<open>std::wstring\<close> a sequence of them; \<^verbatim>\<open>unsigned int\<close> and \<^verbatim>\<open>int\<close> are 32 bits
  wide and \<^verbatim>\<open>unsigned long long\<close> is 64 bits wide. A value of type \<^verbatim>\<open>int\<close> is a
  \<open>32 word\<close> that is read with \<open>sint\<close>.
\<close>

type_synonym wchar = "16 word"
type_synonym wstring = "wchar list"

text \<open>Wide string literals \<^verbatim>\<open>L"..."\<close> of ASCII text.\<close>

definition L :: "string \<Rightarrow> wstring" where
  "L s = map of_char s"

text \<open>\<^verbatim>\<open>struct Dictionary::DictEntry\<close> (dictionary.h).\<close>

record DictEntry =
  word :: wstring
  frequency :: "32 word"
  pronunciation :: wstring
  tags :: "wstring list"

text \<open>
  \<^verbatim>\<open>class Dictionary\<close> (dictionary.h). The \<^verbatim>\<open>std::map\<close> from pronunciation to entry
  list is an association list with distinct keys; only lookup, insertion, emptiness and
  size of the map are modelled, so the list keeps insertion order where the C++ map
  keeps key order.
\<close>

record Dictionary =
  m_entries :: "(wstring \<times> DictEntry list) list"
  m_version :: wstring
  m_createdAt :: wstring
  m_updatedAt :: wstring

text \<open>The constructor \<^verbatim>\<open>Dictionary::Dictionary()\<close>.\<close>

definition Dictionary_new :: Dictionary where
  "Dictionary_new =
     \<lparr>m_entries = [], m_version = L ''1.0.0'',
      m_createdAt = L ''2026-01-25T00:00:00Z'', m_updatedAt = L ''2026-01-25T00:00:00Z''\<rparr>"

text \<open>\<^verbatim>\<open>Dictionary::Lookup\<close>: the entry list stored under the key, or the empty list.\<close>

definition Lookup :: "Dictionary \<Rightarrow> wstring \<Rightarrow> DictEntry list" where
  "Lookup d pron = (case map_of (m_entries d) pron of Some es \<Rightarrow> es | None \<Rightarrow> [])"

text \<open>
  \<^verbatim>\<open>m_entries[key].push_back(entry)\<close>: \<^verbatim>\<open>operator[]\<close> inserts an empty list under a
  key that is absent, then the entry is appended.
\<close>

fun push_back_at :: "wstring \<Rightarrow> DictEntry \<Rightarrow> (wstring \<times> DictEntry list) list
    \<Rightarrow> (wstring \<times> DictEntry list) list" where
  "push_back_at k e [] = [(k, [e])]"
| "push_back_at k e ((k', es) # rest) =
     (if k' = k then (k', es @ [e]) # rest else (k', es) # push_back_at k e rest)"

text \<open>\<^verbatim>\<open>Dictionary::AddEntry\<close>.\<close>

definition AddEntry :: "Dictionary \<Rightarrow> wstring \<Rightarrow> DictEntry \<Rightarrow> Dictionary" where
  "AddEntry d pron entry = d\<lparr>m_entries := push_back_at pron entry (m_entries d)\<rparr>"

section \<open>Dictionary loader (dictionary.cpp)\<close>

text \<open>
  The C++ scanners take the whole text \<open>s\<close> and a position \<open>i\<close> passed by reference,
  and return \<^verbatim>\<open>false\<close> on failure. Here a scanner takes the text that starts at the
  position (\<open>drop i s\<close>) and returns the text that starts at the new position, paired
  with what it parsed; \<open>None\<close> is the return value \<^verbatim>\<open>false\<close>. Every caller in
  dictionary.cpp returns at once when a scanner fails, so the position after a failure
  is never read.

  \<^verbatim>\<open>iswspace\<close> and \<^verbatim>\<open>iswdigit\<close> are functions of the C library. They are taken as the
  C standard defines them in the "C" locale: the white-space characters are space and
  the five controls from horizontal tab to carriage return, the digits are 0 to 9.
\<close>

definition iswspace :: "wchar \<Rightarrow> bool" where
  "iswspace c \<longleftrightarrow> c = 0x20 \<or> (0x09 \<le> c \<and> c \<le> 0x0D)"

definition iswdigit :: "wchar \<Rightarrow> bool" where
  "iswdigit c \<longleftrightarrow> 0x30 \<le> c \<and> c \<le> 0x39"

text \<open>\<^verbatim>\<open>SkipWs\<close>.\<close>

fun SkipWs :: "wstring \<Rightarrow> wstring" where
  "SkipWs [] = []"
| "SkipWs (c # s) = (if iswspace c then SkipWs s else c # s)"

text \<open>\<^verbatim>\<open>Consume\<close>: skip white space, then require the character \<open>ch\<close>.\<close>

definition Consume :: "wstring \<Rightarrow> wchar \<Rightarrow> wstring option" where
  "Consume s ch = (case SkipWs s of [] \<Rightarrow> None | c # rest \<Rightarrow> if c \<noteq> ch then None else Some rest)"

text \<open>
  One hexadecimal digit of a \<^verbatim>\<open>\uXXXX\<close> escape, as the \<^verbatim>\<open>unsigned int\<close> that is
  or-ed into \<^verbatim>\<open>code\<close>; the subtraction is done on \<^verbatim>\<open>int\<close>.
\<close>

definition hex_digit :: "wchar \<Rightarrow> 32 word option" where
  "hex_digit h =
     (if 0x30 \<le> h \<and> h \<le> 0x39 then Some (word_of_int (uint h - 0x30))
      else if 0x61 \<le> h \<and> h \<le> 0x66 then Some (word_of_int (uint h - 0x61 + 10))
      else if 0x41 \<le> h \<and> h \<le> 0x46 then Some (word_of_int (uint h - 0x41 + 10))
      else None)"

text \<open>The loop over the four digits: \<^verbatim>\<open>code <<= 4; code |= digit\<close>.\<close>

fun hex_loop :: "wstring \<Rightarrow> 32 word \<Rightarrow> 32 word option" where
  "hex_loop [] code = Some code"
| "hex_loop (h # hs) code =
     (case hex_digit h of None \<Rightarrow> None | Some v \<Rightarrow> hex_loop hs (or (push_bit 4 code) v))"

text \<open>
  The \<^verbatim>\<open>switch\<close> on the character after a backslash: the character appended to the
  result and the text after the escape. \<open>s\<close> starts after the escape character.
\<close>

definition escape :: "wchar \<Rightarrow> wstring \<Rightarrow> (wchar \<times> wstring) option" where
  "escape esc s =
     (if esc = 0x22 then Some (0x22, s)
      else if esc = 0x5C then Some (0x5C, s)
      else if esc = 0x2F then Some (0x2F, s)
      else if esc = 0x62 then Some (0x08, s)
      else if esc = 0x66 then Some (0x0C, s)
      else if esc = 0x6E then Some (0x0A, s)
      else if esc = 0x72 then Some (0x0D, s)
      else if esc = 0x74 then Some (0x09, s)
      else if esc = 0x75 then
        (if length s < 4 then None
         else case hex_loop (take 4 s) 0 of
                None \<Rightarrow> None
              | Some code \<Rightarrow> Some (ucast code, drop 4 s))
      else Some (esc, s))"

lemma escape_length [termination_simp]: "escape esc s = Some (c, r) \<Longrightarrow> length r \<le> length s"
  by (auto simp: escape_def split: if_splits option.splits)

text \<open>The \<^verbatim>\<open>while\<close> loop of \<^verbatim>\<open>ParseString\<close>, entered after the opening quote.\<close>

fun string_loop :: "wstring \<Rightarrow> wstring \<Rightarrow> (wstring \<times> wstring) option" where
  "string_loop [] result = None"
| "string_loop (ch # s) result =
     (if ch = 0x22 then Some (result, s)
      else if ch = 0x5C then
        (case s of
           [] \<Rightarrow> None
         | esc # s' \<Rightarrow>
             (case escape esc s' of
                None \<Rightarrow> None
              | Some (c, s'') \<Rightarrow> string_loop s'' (result @ [c])))
      else string_loop s (result @ [ch]))"

text \<open>\<^verbatim>\<open>ParseString\<close>.\<close>

definition ParseString :: "wstring \<Rightarrow> (wstring \<times> wstring) option" where
  "ParseString s =
     (case SkipWs s of [] \<Rightarrow> None | c # rest \<Rightarrow> if c \<noteq> 0x22 then None else string_loop rest [])"

text \<open>The scanners never move backwards; the loops below terminate by these facts.\<close>

lemma length_SkipWs: "length (SkipWs s) \<le> length s"
  by (induction s) auto

lemma SkipWs_Cons_length: "SkipWs s = c # rest \<Longrightarrow> Suc (length rest) \<le> length s"
  using length_SkipWs[of s] by simp

lemma Consume_length: "Consume s ch = Some r \<Longrightarrow> length r < length s"
  using length_SkipWs[of s] by (auto simp: Consume_def split: list.splits if_splits)

lemma string_loop_length: "string_loop s acc = Some (out, r) \<Longrightarrow> length r < length s"
proof (induction s acc arbitrary: out r rule: string_loop.induct)
  case (1 result)
  then show ?case by simp
next
  case (2 ch s result)
  show ?case
  proof (cases "ch = 0x22")
    case True
    then show ?thesis using "2.prems" by simp
  next
    case nq: False
    show ?thesis
    proof (cases "ch = 0x5C")
      case False
      then have "string_loop s (result @ [ch]) = Some (out, r)" using "2.prems" nq by simp
      then have "length r < length s" using "2.IH"(2)[OF nq False] by blast
      then show ?thesis by simp
    next
      case True
      then obtain esc s' c s'' where s: "s = esc # s'" and e: "escape esc s' = Some (c, s'')"
        and l: "string_loop s'' (result @ [c]) = Some (out, r)"
        using "2.prems" nq by (auto split: list.splits option.splits)
      have "length r < length s''" using "2.IH"(1)[OF nq True s e refl l] .
      then show ?thesis using escape_length[OF e] s by simp
    qed
  qed
qed

lemma ParseString_length: "ParseString s = Some (out, r) \<Longrightarrow> length r < length s"
  using length_SkipWs[of s]
  by (auto simp: ParseString_def split: list.splits if_splits dest!: string_loop_length)

text \<open>
  \<^verbatim>\<open>ParseUnsigned\<close>. The accumulator is an \<^verbatim>\<open>unsigned long long\<close>; after every digit
  a value above \<^verbatim>\<open>0xFFFFFFFF\<close> is replaced by \<^verbatim>\<open>0xFFFFFFFF\<close>. The digit's value
  \<^verbatim>\<open>s[i] - L'0'\<close> is computed on \<^verbatim>\<open>int\<close> and converted.
\<close>

definition clamp32 :: "64 word \<Rightarrow> 64 word" where
  "clamp32 v = (if v > 0xFFFFFFFF then 0xFFFFFFFF else v)"

fun digit_loop :: "wstring \<Rightarrow> 64 word \<Rightarrow> 64 word \<times> wstring" where
  "digit_loop [] val = (val, [])"
| "digit_loop (c # s) val =
     (if iswdigit c
      then digit_loop s (clamp32 (val * 10 + word_of_int (uint c - 0x30)))
      else (val, c # s))"

definition ParseUnsigned :: "wstring \<Rightarrow> (32 word \<times> wstring) option" where
  "ParseUnsigned s =
     (case SkipWs s of
        [] \<Rightarrow> None
      | c # rest \<Rightarrow>
          if \<not> iswdigit c then None
          else (let (val, r) = digit_loop (c # rest) 0 in Some (ucast val, r)))"

lemma digit_loop_length: "digit_loop s v = (v', r) \<Longrightarrow> length r \<le> length s"
  by (induction s v rule: digit_loop.induct) (auto split: if_splits)

lemma ParseUnsigned_length: "ParseUnsigned s = Some (v, r) \<Longrightarrow> length r \<le> length s"
proof -
  assume a: "ParseUnsigned s = Some (v, r)"
  then obtain c rest val where ws: "SkipWs s = c # rest" and dl: "digit_loop (c # rest) 0 = (val, r)"
    by (auto simp: ParseUnsigned_def split: list.splits if_splits prod.splits)
  show ?thesis using digit_loop_length[OF dl] SkipWs_Cons_length[OF ws] by simp
qed

text \<open>
  The end of every loop body in the object and array scanners:
  \<^verbatim>\<open>SkipWs(s, i); if (i < s.size() && s[i] == L',') ++i;\<close>
\<close>

definition skip_comma :: "wstring \<Rightarrow> wstring" where
  "skip_comma s = (case SkipWs s of [] \<Rightarrow> [] | c # rest \<Rightarrow> if c = 0x2C then rest else c # rest)"

lemma skip_comma_length: "length (skip_comma s) \<le> length s"
  using length_SkipWs[of s] by (auto simp: skip_comma_def split: list.splits)

text \<open>The characters that end a number, \<^verbatim>\<open>true\<close>, \<^verbatim>\<open>false\<close> or \<^verbatim>\<open>null\<close> in \<^verbatim>\<open>SkipValue\<close>.\<close>

definition scalar_end :: "wchar \<Rightarrow> bool" where
  "scalar_end ch \<longleftrightarrow> ch = 0x2C \<or> ch = 0x7D \<or> ch = 0x5D \<or> iswspace ch"

text \<open>
  \<^verbatim>\<open>SkipValue\<close>, \<^verbatim>\<open>SkipObject\<close> and \<^verbatim>\<open>SkipArray\<close> call each other; the two
  \<open>_loop\<close> functions are the \<^verbatim>\<open>while (i < s.size())\<close> loops of \<^verbatim>\<open>SkipObject\<close> and
  \<^verbatim>\<open>SkipArray\<close>, which return \<^verbatim>\<open>false\<close> when the text ends.
\<close>

function SkipValue :: "wstring \<Rightarrow> wstring option"
  and SkipObject :: "wstring \<Rightarrow> wstring option"
  and SkipObject_loop :: "wstring \<Rightarrow> wstring option"
  and SkipArray :: "wstring \<Rightarrow> wstring option"
  and SkipArray_loop :: "wstring \<Rightarrow> wstring option" where
  "SkipValue s =
     (case SkipWs s of
        [] \<Rightarrow> None
      | c # rest \<Rightarrow>
          if c = 0x22 then map_option snd (ParseString (c # rest))
          else if c = 0x7B then SkipObject (c # rest)
          else if c = 0x5B then SkipArray (c # rest)
          else (let r = dropWhile (\<lambda>ch. \<not> scalar_end ch) (c # rest)
                in if length r < length (c # rest) then Some r else None))"
| "SkipObject s = (case Consume s 0x7B of None \<Rightarrow> None | Some r \<Rightarrow> SkipObject_loop r)"
| "SkipObject_loop s =
     (if s = [] then None
      else case SkipWs s of
             [] \<Rightarrow> None
           | c # rest \<Rightarrow>
               if c = 0x7D then Some rest
               else case ParseString (c # rest) of
                      None \<Rightarrow> None
                    | Some (key, s1) \<Rightarrow>
                        (case Consume s1 0x3A of
                           None \<Rightarrow> None
                         | Some s2 \<Rightarrow>
                             (case SkipValue s2 of
                                None \<Rightarrow> None
                              | Some s3 \<Rightarrow> SkipObject_loop (skip_comma s3))))"
| "SkipArray s = (case Consume s 0x5B of None \<Rightarrow> None | Some r \<Rightarrow> SkipArray_loop r)"
| "SkipArray_loop s =
     (if s = [] then None
      else case SkipWs s of
             [] \<Rightarrow> None
           | c # rest \<Rightarrow>
               if c = 0x5D then Some rest
               else case SkipValue (c # rest) of
                      None \<Rightarrow> None
                    | Some s3 \<Rightarrow> SkipArray_loop (skip_comma s3))"
  by pat_completeness auto

text \<open>
  The loops continue at the position a nested call returns, so termination needs that a
  successful call moves forward. This is proved first on the domain of the functions.
\<close>

lemma Skip_length_dom:
  "SkipValue_SkipObject_SkipObject_loop_SkipArray_SkipArray_loop_dom (Inl (Inl s))
     \<Longrightarrow> SkipValue s = Some r \<Longrightarrow> length r < length s"
  "SkipValue_SkipObject_SkipObject_loop_SkipArray_SkipArray_loop_dom (Inl (Inr s1))
     \<Longrightarrow> SkipObject s1 = Some r1 \<Longrightarrow> length r1 < length s1"
  "SkipValue_SkipObject_SkipObject_loop_SkipArray_SkipArray_loop_dom (Inr (Inl s2))
     \<Longrightarrow> SkipObject_loop s2 = Some r2 \<Longrightarrow> length r2 < length s2"
  "SkipValue_SkipObject_SkipObject_loop_SkipArray_SkipArray_loop_dom (Inr (Inr (Inl s3)))
     \<Longrightarrow> SkipArray s3 = Some r3 \<Longrightarrow> length r3 < length s3"
  "SkipValue_SkipObject_SkipObject_loop_SkipArray_SkipArray_loop_dom (Inr (Inr (Inr s4)))
     \<Longrightarrow> SkipArray_loop s4 = Some r4 \<Longrightarrow> length r4 < length s4"
proof (induct arbitrary: r and r1 and r2 and r3 and r4
    rule: SkipValue_SkipObject_SkipObject_loop_SkipArray_SkipArray_loop.pinduct)
  case (1 s)
  from "1.prems" "1.hyps"(1) obtain c rest where ws: "SkipWs s = c # rest"
    by (auto simp: SkipValue.psimps split: list.splits)
  have le: "length (c # rest) \<le> length s" using length_SkipWs[of s] ws by simp
  show ?case
  proof (cases "c = 0x22")
    case True
    then obtain out where "ParseString (c # rest) = Some (out, r)"
      using "1.prems" "1.hyps"(1) ws by (auto simp: SkipValue.psimps)
    then show ?thesis using ParseString_length le by fastforce
  next
    case nq: False
    show ?thesis
    proof (cases "c = 0x7B")
      case True
      then have "SkipObject (c # rest) = Some r"
        using "1.prems" "1.hyps"(1) ws nq by (simp add: SkipValue.psimps)
      then have "length r < length (c # rest)" using "1.hyps"(2)[OF ws nq True] by blast
      then show ?thesis using le by simp
    next
      case no: False
      show ?thesis
      proof (cases "c = 0x5B")
        case True
        then have "SkipArray (c # rest) = Some r"
          using "1.prems" "1.hyps"(1) ws nq no by (simp add: SkipValue.psimps)
        then have "length r < length (c # rest)" using "1.hyps"(3)[OF ws nq no True] by blast
        then show ?thesis using le by simp
      next
        case False
        then have "length r < length (c # rest)"
          using "1.prems" "1.hyps"(1) ws nq no
          by (auto simp: SkipValue.psimps Let_def split: if_splits)
        then show ?thesis using le by simp
      qed
    qed
  qed
next
  case (2 s)
  from "2.prems" "2.hyps"(1) obtain x where c: "Consume s 0x7B = Some x" and l: "SkipObject_loop x = Some r1"
    by (auto simp: SkipObject.psimps split: option.splits)
  have "length r1 < length x" using "2.hyps"(2)[OF c l] .
  then show ?case using Consume_length[OF c] by simp
next
  case (3 s)
  from "3.prems" "3.hyps"(1) have ne: "s \<noteq> []" by (auto simp: SkipObject_loop.psimps)
  from "3.prems" "3.hyps"(1) ne obtain c rest where ws: "SkipWs s = c # rest"
    by (auto simp: SkipObject_loop.psimps split: list.splits)
  have le: "length (c # rest) \<le> length s" using length_SkipWs[of s] ws by simp
  show ?case
  proof (cases "c = 0x7D")
    case True
    then have "r2 = rest" using "3.prems" "3.hyps"(1) ne ws by (simp add: SkipObject_loop.psimps)
    then show ?thesis using le by simp
  next
    case False
    then obtain key sa sb sc where ps: "ParseString (c # rest) = Some (key, sa)"
      and co: "Consume sa 0x3A = Some sb" and sv: "SkipValue sb = Some sc"
      and lp: "SkipObject_loop (skip_comma sc) = Some r2"
      using "3.prems" "3.hyps"(1) ne ws
      by (auto simp: SkipObject_loop.psimps split: option.splits)
    have "length r2 < length (skip_comma sc)"
      using "3.hyps"(3)[OF ne ws False ps refl co sv lp] .
    moreover have "length sc < length sb" using "3.hyps"(2)[OF ne ws False ps refl co sv] .
    ultimately show ?thesis
      using skip_comma_length[of sc] Consume_length[OF co] ParseString_length[OF ps] le by simp
  qed
next
  case (4 s)
  from "4.prems" "4.hyps"(1) obtain x where c: "Consume s 0x5B = Some x" and l: "SkipArray_loop x = Some r3"
    by (auto simp: SkipArray.psimps split: option.splits)
  have "length r3 < length x" using "4.hyps"(2)[OF c l] .
  then show ?case using Consume_length[OF c] by simp
next
  case (5 s)
  from "5.prems" "5.hyps"(1) have ne: "s \<noteq> []" by (auto simp: SkipArray_loop.psimps)
  from "5.prems" "5.hyps"(1) ne obtain c rest where ws: "SkipWs s = c # rest"
    by (auto simp: SkipArray_loop.psimps split: list.splits)
  have le: "length (c # rest) \<le> length s" using length_SkipWs[of s] ws by simp
  show ?case
  proof (cases "c = 0x5D")
    case True
    then have "r4 = rest" using "5.prems" "5.hyps"(1) ne ws by (simp add: SkipArray_loop.psimps)
    then show ?thesis using le by simp
  next
    case False
    then obtain sc where sv: "SkipValue (c # rest) = Some sc"
      and lp: "SkipArray_loop (skip_comma sc) = Some r4"
      using "5.prems" "5.hyps"(1) ne ws
      by (auto simp: SkipArray_loop.psimps split: option.splits)
    have "length r4 < length (skip_comma sc)" using "5.hyps"(3)[OF ne ws False sv lp] .
    moreover have "length sc < length (c # rest)" using "5.hyps"(2)[OF ne ws False sv] .
    ultimately show ?thesis using skip_comma_length[of sc] le by simp
  qed
qed

lemma Skip_total: "All SkipValue_SkipObject_SkipObject_loop_SkipArray_SkipArray_loop_dom"
proof (relation "measure (\<lambda>x. case x of
      Inl (Inl s) \<Rightarrow> 3 * length s + 2
    | Inl (Inr s) \<Rightarrow> 3 * length s + 1
    | Inr (Inl s) \<Rightarrow> 3 * length s + 3
    | Inr (Inr (Inl s)) \<Rightarrow> 3 * length s + 1
    | Inr (Inr (Inr s)) \<Rightarrow> 3 * length s + 3)", goal_cases)
  case 1
  then show ?case by simp
next
  case (2 s c rest)
  then show ?case by (auto dest: SkipWs_Cons_length)
next
  case (3 s c rest)
  then show ?case by (auto dest: SkipWs_Cons_length)
next
  case (4 s x)
  then show ?case by (auto dest: Consume_length)
next
  case (5 s c rest x key s1 s2)
  then have "length s2 < length s1" "length s1 < length (c # rest)" "Suc (length rest) \<le> length s"
    by (auto dest: Consume_length ParseString_length SkipWs_Cons_length)
  then show ?case by simp
next
  case (6 s c rest x key s1 s2 s3)
  then have "length s3 < length s2" "length s2 < length s1" "length s1 < length (c # rest)"
    "Suc (length rest) \<le> length s"
    by (auto dest: Consume_length ParseString_length SkipWs_Cons_length Skip_length_dom(1))
  then show ?case using skip_comma_length[of s3] by simp
next
  case (7 s x)
  then show ?case by (auto dest: Consume_length)
next
  case (8 s c rest)
  then show ?case by (auto dest: SkipWs_Cons_length)
next
  case (9 s c rest s3)
  then have "length s3 < length (c # rest)" "Suc (length rest) \<le> length s"
    by (auto dest: SkipWs_Cons_length Skip_length_dom(1))
  then show ?case using skip_comma_length[of s3] by simp
qed

termination SkipValue
  by (rule Skip_total)

declare SkipValue.simps [simp del] SkipObject.simps [simp del] SkipObject_loop.simps [simp del]
  SkipArray.simps [simp del] SkipArray_loop.simps [simp del]

lemma SkipValue_length: "SkipValue s = Some r \<Longrightarrow> length r < length s"
  using Skip_length_dom(1) Skip_total by blast

text \<open>The loop of \<^verbatim>\<open>ParseTags\<close>; \<open>tgs\<close> are the tags read so far.\<close>

function tags_loop :: "wstring \<Rightarrow> wstring list \<Rightarrow> (wstring list \<times> wstring) option" where
  "tags_loop s tgs =
     (if s = [] then None
      else case SkipWs s of
             [] \<Rightarrow> None
           | c # rest \<Rightarrow>
               if c = 0x5D then Some (tgs, rest)
               else case ParseString (c # rest) of
                      None \<Rightarrow> None
                    | Some (tag, s1) \<Rightarrow> tags_loop (skip_comma s1) (tgs @ [tag]))"
  by pat_completeness auto
termination
proof (relation "measure (\<lambda>(s, tgs). length s)", goal_cases)
  case 1
  then show ?case by simp
next
  case (2 s tgs c rest x tag s1)
  then have "length s1 < length (c # rest)" "Suc (length rest) \<le> length s"
    by (auto dest: ParseString_length SkipWs_Cons_length)
  then show ?case using skip_comma_length[of s1] by simp
qed

declare tags_loop.simps [simp del]

text \<open>\<^verbatim>\<open>ParseTags\<close>.\<close>

definition ParseTags :: "wstring \<Rightarrow> (wstring list \<times> wstring) option" where
  "ParseTags s = (case Consume s 0x5B of None \<Rightarrow> None | Some r \<Rightarrow> tags_loop r [])"

lemma tags_loop_length: "tags_loop s tgs = Some (out, r) \<Longrightarrow> length r < length s"
proof (induction s tgs arbitrary: out r rule: tags_loop.induct)
  case (1 s tgs)
  from "1.prems" have ne: "s \<noteq> []" by (auto simp: tags_loop.simps[of s])
  from "1.prems" ne obtain c rest where ws: "SkipWs s = c # rest"
    by (auto simp: tags_loop.simps[of s] split: list.splits)
  show ?case
  proof (cases "c = 0x5D")
    case True
    then have "r = rest" using "1.prems" ne ws by (simp add: tags_loop.simps[of s])
    then show ?thesis using SkipWs_Cons_length[OF ws] by simp
  next
    case False
    then obtain tag s1 where ps: "ParseString (c # rest) = Some (tag, s1)"
      and lp: "tags_loop (skip_comma s1) (tgs @ [tag]) = Some (out, r)"
      using "1.prems" ne ws by (auto simp: tags_loop.simps[of s] split: option.splits)
    have "length r < length (skip_comma s1)" using "1.IH"[OF ne ws False ps refl lp] .
    then show ?thesis
      using skip_comma_length[of s1] ParseString_length[OF ps] SkipWs_Cons_length[OF ws] by simp
  qed
qed

lemma ParseTags_length: "ParseTags s = Some (out, r) \<Longrightarrow> length r < length s"
  by (auto simp: ParseTags_def split: option.splits dest!: tags_loop_length Consume_length)

text \<open>
  The chain of comparisons on the key inside the loop of \<^verbatim>\<open>ParseEntryObject\<close>: the
  field of the entry that is assigned, or a skipped value for a key that is not known.
\<close>

definition entry_field :: "wstring \<Rightarrow> wstring \<Rightarrow> DictEntry \<Rightarrow> (DictEntry \<times> wstring) option" where
  "entry_field key s entry =
     (if key = L ''word'' then
        (case ParseString s of None \<Rightarrow> None | Some (w, r) \<Rightarrow> Some (entry\<lparr>word := w\<rparr>, r))
      else if key = L ''frequency'' then
        (case ParseUnsigned s of None \<Rightarrow> None | Some (f, r) \<Rightarrow> Some (entry\<lparr>frequency := f\<rparr>, r))
      else if key = L ''pronunciation'' then
        (case ParseString s of None \<Rightarrow> None | Some (p, r) \<Rightarrow> Some (entry\<lparr>pronunciation := p\<rparr>, r))
      else if key = L ''tags'' then
        (case ParseTags s of None \<Rightarrow> None | Some (t, r) \<Rightarrow> Some (entry\<lparr>tags := t\<rparr>, r))
      else
        (case SkipValue s of None \<Rightarrow> None | Some r \<Rightarrow> Some (entry, r)))"

lemma entry_field_length: "entry_field key s entry = Some (e, r) \<Longrightarrow> length r \<le> length s"
  by (auto simp: entry_field_def split: if_splits option.splits
      dest!: ParseString_length ParseUnsigned_length ParseTags_length SkipValue_length)

text \<open>The loop of \<^verbatim>\<open>ParseEntryObject\<close>.\<close>

function entry_loop :: "wstring \<Rightarrow> DictEntry \<Rightarrow> (DictEntry \<times> wstring) option" where
  "entry_loop s entry =
     (if s = [] then None
      else case SkipWs s of
             [] \<Rightarrow> None
           | c # rest \<Rightarrow>
               if c = 0x7D then Some (entry, rest)
               else case ParseString (c # rest) of
                      None \<Rightarrow> None
                    | Some (key, s1) \<Rightarrow>
                        (case Consume s1 0x3A of
                           None \<Rightarrow> None
                         | Some s2 \<Rightarrow>
                             (case entry_field key s2 entry of
                                None \<Rightarrow> None
                              | Some (entry', s3) \<Rightarrow> entry_loop (skip_comma s3) entry')))"
  by pat_completeness auto
termination
proof (relation "measure (\<lambda>(s, e). length s)", goal_cases)
  case 1
  then show ?case by simp
next
  case (2 s entry c rest x key s1 s2 y entry' s3)
  then have "length s3 \<le> length s2" "length s2 < length s1" "length s1 < length (c # rest)"
    "Suc (length rest) \<le> length s"
    by (auto dest: ParseString_length SkipWs_Cons_length Consume_length entry_field_length)
  then show ?case using skip_comma_length[of s3] by simp
qed

declare entry_loop.simps [simp del]

text \<open>\<^verbatim>\<open>ParseEntryObject\<close>; the entry starts as \<^verbatim>\<open>DictEntry{}\<close>.\<close>

definition ParseEntryObject :: "wstring \<Rightarrow> (DictEntry \<times> wstring) option" where
  "ParseEntryObject s =
     (case Consume s 0x7B of
        None \<Rightarrow> None
      | Some r \<Rightarrow> entry_loop r \<lparr>word = [], frequency = 0, pronunciation = [], tags = []\<rparr>)"

lemma entry_loop_length: "entry_loop s entry = Some (e, r) \<Longrightarrow> length r < length s"
proof (induction s entry arbitrary: e r rule: entry_loop.induct)
  case (1 s entry)
  from "1.prems" have ne: "s \<noteq> []" by (auto simp: entry_loop.simps[of s])
  from "1.prems" ne obtain c rest where ws: "SkipWs s = c # rest"
    by (auto simp: entry_loop.simps[of s] split: list.splits)
  show ?case
  proof (cases "c = 0x7D")
    case True
    then have "r = rest" using "1.prems" ne ws by (simp add: entry_loop.simps[of s])
    then show ?thesis using SkipWs_Cons_length[OF ws] by simp
  next
    case False
    then obtain key s1 s2 entry' s3 where ps: "ParseString (c # rest) = Some (key, s1)"
      and co: "Consume s1 0x3A = Some s2"
      and ef: "entry_field key s2 entry = Some (entry', s3)"
      and lp: "entry_loop (skip_comma s3) entry' = Some (e, r)"
      using "1.prems" ne ws by (auto simp: entry_loop.simps[of s] split: option.splits)
    have "length r < length (skip_comma s3)"
      using "1.IH"[OF ne ws False ps refl co ef refl lp] .
    then show ?thesis
      using skip_comma_length[of s3] entry_field_length[OF ef] Consume_length[OF co]
        ParseString_length[OF ps] SkipWs_Cons_length[OF ws] by simp
  qed
qed

lemma ParseEntryObject_length: "ParseEntryObject s = Some (e, r) \<Longrightarrow> length r < length s"
  by (auto simp: ParseEntryObject_def split: option.splits dest!: entry_loop_length Consume_length)

text \<open>
  \<^verbatim>\<open>Dictionary::LoadFromFile\<close>. The loops write into \<^verbatim>\<open>m_entries\<close> as they go, and
  what they wrote stays when a later step returns \<^verbatim>\<open>false\<close>; so each loop returns the
  entries together with its outcome.
\<close>

type_synonym entries = "(wstring \<times> DictEntry list) list"

text \<open>
  The inner loop over the entry objects of one key. \<open>Some r\<close> is the position at which
  the loop was left, \<open>None\<close> is \<^verbatim>\<open>return false\<close>.
\<close>

function entries_loop :: "wstring \<Rightarrow> wstring \<Rightarrow> entries \<Rightarrow> wstring option \<times> entries" where
  "entries_loop pronKey s m =
     (if s = [] then (Some s, m)
      else case ParseEntryObject s of
             None \<Rightarrow> (None, m)
           | Some (entry, s1) \<Rightarrow>
               (let entry = (if pronunciation entry = [] then entry\<lparr>pronunciation := pronKey\<rparr> else entry);
                    m = push_back_at pronKey entry m
                in case SkipWs s1 of
                     [] \<Rightarrow> (Some [], m)
                   | c # rest \<Rightarrow> if c = 0x2C then entries_loop pronKey rest m else (Some (c # rest), m)))"
  by pat_completeness auto
termination
proof (relation "measure (\<lambda>(k, s, m). length s)", goal_cases)
  case 1
  then show ?case by simp
next
  case (2 pronKey s m x entry s1 e m' c rest)
  then have "length s1 < length s" "Suc (length rest) \<le> length s1"
    by (auto dest: ParseEntryObject_length SkipWs_Cons_length)
  then show ?case by simp
qed

declare entries_loop.simps [simp del]

lemma entries_loop_length: "entries_loop k s m = (Some r, m') \<Longrightarrow> length r \<le> length s"
proof (induction k s m arbitrary: r m' rule: entries_loop.induct)
  case (1 pronKey s m)
  show ?case
  proof (cases "s = []")
    case True
    then show ?thesis using "1.prems" entries_loop.simps[of pronKey s m] by simp
  next
    case ne: False
    then obtain entry s1 where pe: "ParseEntryObject s = Some (entry, s1)"
      using "1.prems" by (auto simp: entries_loop.simps[of _ s] split: option.splits)
    have l1: "length s1 < length s" using ParseEntryObject_length[OF pe] .
    show ?thesis
    proof (cases "SkipWs s1")
      case Nil
      then show ?thesis using "1.prems" ne pe by (simp add: entries_loop.simps[of _ s] Let_def)
    next
      case (Cons c rest)
      have l2: "Suc (length rest) \<le> length s1" using SkipWs_Cons_length[OF Cons] .
      show ?thesis
      proof (cases "c = 0x2C")
        case True
        then have "entries_loop pronKey rest (push_back_at pronKey
            (if pronunciation entry = [] then entry\<lparr>pronunciation := pronKey\<rparr> else entry) m) = (Some r, m')"
          using "1.prems" ne pe Cons by (simp add: entries_loop.simps[of _ s] Let_def)
        then have "length r \<le> length rest"
          using "1.IH"[OF ne pe refl refl refl Cons True] by blast
        then show ?thesis using l1 l2 by simp
      next
        case False
        then have "r = c # rest" using "1.prems" ne pe Cons
          by (simp add: entries_loop.simps[of _ s] Let_def)
        then show ?thesis using l1 l2 by simp
      qed
    qed
  qed
qed

text \<open>
  The body of the outer loop from the key string on: the key, the colon, the array of
  entry objects and the comma that may follow it. \<open>Some r\<close> is the position at which
  the next iteration starts, \<open>None\<close> is \<^verbatim>\<open>return false\<close>.
\<close>

definition key_group :: "wstring \<Rightarrow> entries \<Rightarrow> wstring option \<times> entries" where
  "key_group s m =
     (case ParseString s of
        None \<Rightarrow> (None, m)
      | Some (pronKey, s1) \<Rightarrow>
          (case Consume s1 0x3A of
             None \<Rightarrow> (None, m)
           | Some s2 \<Rightarrow>
               (case Consume s2 0x5B of
                  None \<Rightarrow> (None, m)
                | Some s3 \<Rightarrow>
                    (case (case SkipWs s3 of
                             [] \<Rightarrow> (Some [], m)
                           | c' # rest' \<Rightarrow>
                               if c' \<noteq> 0x5D then entries_loop pronKey (c' # rest') m
                               else (Some (c' # rest'), m)) of
                       (None, m') \<Rightarrow> (None, m')
                     | (Some s4, m') \<Rightarrow>
                         (case Consume s4 0x5D of
                            None \<Rightarrow> (None, m')
                          | Some s5 \<Rightarrow> (Some (skip_comma s5), m'))))))"

lemma key_group_length:
  assumes "key_group s m = (Some r, m')"
  shows "length r < length s"
proof -
  from assms obtain pronKey s1 s2 s3 s4 s5 where
    ps: "ParseString s = Some (pronKey, s1)" and c1: "Consume s1 0x3A = Some s2"
    and c2: "Consume s2 0x5B = Some s3"
    and el: "(case SkipWs s3 of
                [] \<Rightarrow> (Some [], m)
              | c' # rest' \<Rightarrow>
                  if c' \<noteq> 0x5D then entries_loop pronKey (c' # rest') m
                  else (Some (c' # rest'), m)) = (Some s4, m')"
    and c3: "Consume s4 0x5D = Some s5" and r: "r = skip_comma s5"
    by (auto simp: key_group_def split: option.splits prod.splits)
  have "length s4 \<le> length s3"
  proof (cases "SkipWs s3")
    case Nil
    then show ?thesis using el by simp
  next
    case (Cons c' rest')
    have "length s4 \<le> length (c' # rest')"
      using el Cons by (cases "c' \<noteq> 0x5D") (auto dest: entries_loop_length)
    then show ?thesis using SkipWs_Cons_length[OF Cons] by simp
  qed
  then show ?thesis
    using ParseString_length[OF ps] Consume_length[OF c1] Consume_length[OF c2]
      Consume_length[OF c3] skip_comma_length[of s5] r by simp
qed

text \<open>
  The outer loop over the keys of the \<^verbatim>\<open>entries\<close> object. \<open>True\<close> means that the
  loop was left (at the closing brace, or because the text ended before an iteration),
  \<open>False\<close> is \<^verbatim>\<open>return false\<close>.
\<close>

function keys_loop :: "wstring \<Rightarrow> entries \<Rightarrow> bool \<times> entries" where
  "keys_loop s m =
     (if s = [] then (True, m)
      else case SkipWs s of
             [] \<Rightarrow> (False, m)
           | c # rest \<Rightarrow>
               if c = 0x7D then (True, m)
               else case key_group (c # rest) m of
                      (None, m') \<Rightarrow> (False, m')
                    | (Some r, m') \<Rightarrow> keys_loop r m')"
  by pat_completeness auto
termination
proof (relation "measure (\<lambda>(s, m). length s)", goal_cases)
  case 1
  then show ?case by simp
next
  case (2 s m c rest x m' r)
  then have "length r < length (c # rest)" "Suc (length rest) \<le> length s"
    by (auto dest: key_group_length[OF sym] SkipWs_Cons_length)
  then show ?case by simp
qed

declare keys_loop.simps [simp del]


text \<open>
  \<^verbatim>\<open>std::wstring::find\<close> for a string and for a character: the text from the first
  occurrence on.
\<close>

fun find_str :: "wstring \<Rightarrow> wstring \<Rightarrow> wstring option" where
  "find_str pat [] = (if pat = [] then Some [] else None)"
| "find_str pat (c # s) = (if take (length pat) (c # s) = pat then Some (c # s) else find_str pat s)"

definition find_chr :: "wchar \<Rightarrow> wstring \<Rightarrow> wstring option" where
  "find_chr ch s = (case dropWhile (\<lambda>c. c \<noteq> ch) s of [] \<Rightarrow> None | c # r \<Rightarrow> Some (c # r))"

text \<open>
  The search for the \<^verbatim>\<open>"entries"\<close> key, the colon after it and the opening brace:
  the text after the brace.
\<close>

definition open_entries :: "wstring \<Rightarrow> wstring option" where
  "open_entries content =
     (case find_str (0x22 # L ''entries'' @ [0x22]) content of
        None \<Rightarrow> None
      | Some s0 \<Rightarrow>
          (case find_chr 0x3A s0 of
             None \<Rightarrow> None
           | Some s1 \<Rightarrow> Consume (tl s1) 0x7B))"

text \<open>
  The file system is a map from paths to the decoded content of the files that can be
  opened; \<open>now\<close> is the formatted local time. The result is the return value and the
  dictionary after the call. Exceptions (the \<^verbatim>\<open>catch (...)\<close>) are not modelled.
\<close>

definition LoadFromFile ::
  "(wstring \<rightharpoonup> wstring) \<Rightarrow> wstring \<Rightarrow> Dictionary \<Rightarrow> wstring \<Rightarrow> bool \<times> Dictionary" where
  "LoadFromFile fs now d filePath =
     (let d = d\<lparr>m_entries := []\<rparr> in
      case fs filePath of
        None \<Rightarrow> (False, d)
      | Some content \<Rightarrow>
          (case open_entries content of
             None \<Rightarrow> (False, d)
           | Some s \<Rightarrow>
               (case keys_loop s (m_entries d) of
                  (False, m) \<Rightarrow> (False, d\<lparr>m_entries := m\<rparr>)
                | (True, m) \<Rightarrow> (m \<noteq> [], d\<lparr>m_entries := m, m_updatedAt := now\<rparr>))))"

section \<open>Standard library algorithms\<close>

text \<open>
  \<^verbatim>\<open>std::sort\<close> is library code. The C++ standard fixes its result only up to the
  order of elements that the comparison does not separate: the result is a permutation
  of the input in which no element is followed by one that the comparison puts strictly
  before it. The functions below that call \<^verbatim>\<open>std::sort\<close> take the sorting procedure
  as a parameter \<open>srt\<close>; \<open>std_sort_spec cmp srt\<close> is the guarantee of the standard for
  the comparison \<open>cmp\<close>.
\<close>

definition std_sort_spec :: "('a \<Rightarrow> 'a \<Rightarrow> bool) \<Rightarrow> (('a \<Rightarrow> 'a \<Rightarrow> bool) \<Rightarrow> 'a list \<Rightarrow> 'a list) \<Rightarrow> bool" where
  "std_sort_spec cmp srt \<longleftrightarrow>
     (\<forall>xs. mset (srt cmp xs) = mset xs \<and> sorted_wrt (\<lambda>a b. \<not> cmp b a) (srt cmp xs))"

text \<open>
  A procedure that meets the guarantee: the straight insertion sort that library
  implementations run on short ranges. It keeps the input order of elements the
  comparison does not separate.
\<close>

fun insert_by :: "('a \<Rightarrow> 'a \<Rightarrow> bool) \<Rightarrow> 'a \<Rightarrow> 'a list \<Rightarrow> 'a list" where
  "insert_by cmp x [] = [x]"
| "insert_by cmp x (y # ys) = (if cmp x y then x # y # ys else y # insert_by cmp x ys)"

definition insertion_sort :: "('a \<Rightarrow> 'a \<Rightarrow> bool) \<Rightarrow> 'a list \<Rightarrow> 'a list" where
  "insertion_sort cmp xs = foldl (\<lambda>acc x. insert_by cmp x acc) [] xs"

subsection \<open>\<^verbatim>\<open>std::sort\<close> of the GNU C++ library\<close>

text \<open>
  The order of elements that the comparison does not separate is up to the library.
  What follows is \<^verbatim>\<open>std::sort\<close> as the GNU C++ library (libstdc++, header
  \<^verbatim>\<open>bits/stl_algo.h\<close>) runs it on a vector: an introsort, which partitions ranges of
  more than 16 elements around a median of three and finishes with an insertion sort.
  The vector is a list, an iterator a position counted from 0, and every function
  returns the vector it leaves. The library's loops that run without a bound check
  return \<open>None\<close> here when they leave the vector. The heap sort that the library falls
  back to when the depth limit is used up is not part of this model: \<open>None\<close> as well.
\<close>

text \<open>\<^verbatim>\<open>std::__lg\<close>: the position of the highest bit that is set.\<close>

fun lg :: "nat \<Rightarrow> nat" where
  "lg n = (if n < 2 then 0 else Suc (lg (n div 2)))"

declare lg.simps [simp del]

text \<open>\<^verbatim>\<open>std::iter_swap\<close>.\<close>

definition iter_swap :: "nat \<Rightarrow> nat \<Rightarrow> 'a list \<Rightarrow> 'a list" where
  "iter_swap a b xs = xs[a := xs ! b, b := xs ! a]"

text \<open>\<^verbatim>\<open>std::__move_median_to_first\<close>.\<close>

definition move_median_to_first ::
  "('a \<Rightarrow> 'a \<Rightarrow> bool) \<Rightarrow> 'a list \<Rightarrow> nat \<Rightarrow> nat \<Rightarrow> nat \<Rightarrow> nat \<Rightarrow> 'a list" where
  "move_median_to_first cmp xs result a b c =
     (if cmp (xs ! a) (xs ! b) then
        (if cmp (xs ! b) (xs ! c) then iter_swap result b xs
         else if cmp (xs ! a) (xs ! c) then iter_swap result c xs
         else iter_swap result a xs)
      else if cmp (xs ! a) (xs ! c) then iter_swap result a xs
      else if cmp (xs ! b) (xs ! c) then iter_swap result c xs
      else iter_swap result b xs)"

text \<open>
  The two inner loops of \<^verbatim>\<open>std::__unguarded_partition\<close>:
  \<^verbatim>\<open>while (comp(first, pivot)) ++first;\<close> and \<^verbatim>\<open>while (comp(pivot, last)) --last;\<close>.
\<close>

function scan_up :: "('a \<Rightarrow> 'a \<Rightarrow> bool) \<Rightarrow> 'a list \<Rightarrow> nat \<Rightarrow> nat \<Rightarrow> nat option" where
  "scan_up cmp xs pivot first =
     (if length xs \<le> first then None
      else if cmp (xs ! first) (xs ! pivot) then scan_up cmp xs pivot (first + 1)
      else Some first)"
  by pat_completeness auto
termination
  by (relation "measure (\<lambda>(cmp, xs, pivot, first). length xs - first)") auto

fun scan_down :: "('a \<Rightarrow> 'a \<Rightarrow> bool) \<Rightarrow> 'a list \<Rightarrow> nat \<Rightarrow> nat \<Rightarrow> nat option" where
  "scan_down cmp xs pivot lst =
     (if cmp (xs ! pivot) (xs ! lst)
      then (case lst of 0 \<Rightarrow> None | Suc l \<Rightarrow> scan_down cmp xs pivot l)
      else Some lst)"

declare scan_up.simps [simp del] scan_down.simps [simp del]

lemma scan_up_ge: "scan_up cmp xs pivot first = Some f \<Longrightarrow> first \<le> f"
proof (induction cmp xs pivot first rule: scan_up.induct)
  case (1 cmp xs pivot first)
  then show ?case
    by (subst (asm) (2) scan_up.simps) (auto split: if_splits)
qed

lemma scan_down_le: "scan_down cmp xs pivot lst = Some l \<Longrightarrow> l \<le> lst"
proof (induction cmp xs pivot lst rule: scan_down.induct)
  case (1 cmp xs pivot lst)
  then show ?case
    by (subst (asm) (2) scan_down.simps) (fastforce split: if_splits nat.splits)
qed

text \<open>
  \<^verbatim>\<open>std::__unguarded_partition\<close>, the range from \<open>first\<close> up to \<open>lst\<close> (the library's
  \<^verbatim>\<open>last\<close>) around the element at \<open>pivot\<close>: the cut and the vector.
\<close>

function unguarded_partition ::
  "('a \<Rightarrow> 'a \<Rightarrow> bool) \<Rightarrow> 'a list \<Rightarrow> nat \<Rightarrow> nat \<Rightarrow> nat \<Rightarrow> (nat \<times> 'a list) option" where
  "unguarded_partition cmp xs first lst pivot =
     (case scan_up cmp xs pivot first of
        None \<Rightarrow> None
      | Some first' \<Rightarrow>
          (if lst = 0 then None
           else case scan_down cmp xs pivot (lst - 1) of
                  None \<Rightarrow> None
                | Some lst' \<Rightarrow>
                    if \<not> first' < lst' then Some (first', xs)
                    else unguarded_partition cmp (iter_swap first' lst' xs) (first' + 1) lst' pivot))"
  by pat_completeness auto
termination
proof (relation "measure (\<lambda>(cmp, xs, first, lst, pivot). lst - first)", goal_cases)
  case 1
  then show ?case by simp
next
  case (2 cmp xs first lst pivot first' lst')
  then show ?case
    using scan_up_ge[of cmp xs pivot first first'] scan_down_le[of cmp xs pivot "lst - 1" lst']
    by simp
qed

declare unguarded_partition.simps [simp del]

text \<open>\<^verbatim>\<open>std::__unguarded_partition_pivot\<close>.\<close>

definition unguarded_partition_pivot ::
  "('a \<Rightarrow> 'a \<Rightarrow> bool) \<Rightarrow> 'a list \<Rightarrow> nat \<Rightarrow> nat \<Rightarrow> (nat \<times> 'a list) option" where
  "unguarded_partition_pivot cmp xs first lst =
     (let mid = first + (lst - first) div 2;
          xs = move_median_to_first cmp xs first (first + 1) mid (lst - 1)
      in unguarded_partition cmp xs (first + 1) lst first)"

text \<open>
  \<^verbatim>\<open>std::__introsort_loop\<close>: the right part by the recursive call, the left part by
  the next iteration of the loop, both with the depth limit one less.
\<close>

fun introsort_loop ::
  "('a \<Rightarrow> 'a \<Rightarrow> bool) \<Rightarrow> 'a list \<Rightarrow> nat \<Rightarrow> nat \<Rightarrow> nat \<Rightarrow> 'a list option" where
  "introsort_loop cmp xs first lst depth_limit =
     (if 16 < lst - first then
        (case depth_limit of
           0 \<Rightarrow> None
         | Suc depth_limit \<Rightarrow>
             (case unguarded_partition_pivot cmp xs first lst of
                None \<Rightarrow> None
              | Some (cutpos, xs) \<Rightarrow>
                  (case introsort_loop cmp xs cutpos lst depth_limit of
                     None \<Rightarrow> None
                   | Some xs \<Rightarrow> introsort_loop cmp xs first cutpos depth_limit)))
      else Some xs)"

declare introsort_loop.simps [simp del]

text \<open>
  \<^verbatim>\<open>std::__unguarded_linear_insert\<close>: \<open>val\<close> is the element taken from position
  \<open>lst\<close>, which moves down while \<open>val\<close> goes before the element below it.
\<close>

fun unguarded_linear_insert ::
  "('a \<Rightarrow> 'a \<Rightarrow> bool) \<Rightarrow> 'a \<Rightarrow> 'a list \<Rightarrow> nat \<Rightarrow> 'a list option" where
  "unguarded_linear_insert cmp val xs lst =
     (case lst of
        0 \<Rightarrow> None
      | Suc next \<Rightarrow>
          if cmp val (xs ! next) then unguarded_linear_insert cmp val (xs[lst := xs ! next]) next
          else Some (xs[lst := val]))"

declare unguarded_linear_insert.simps [simp del]

text \<open>
  \<^verbatim>\<open>std::move_backward(first, i, i + 1)\<close>: the elements from \<open>first\<close> up to \<open>i\<close> move
  one position up.
\<close>

definition move_backward :: "nat \<Rightarrow> nat \<Rightarrow> 'a list \<Rightarrow> 'a list" where
  "move_backward first i xs = take (Suc first) xs @ take (i - first) (drop first xs) @ drop (Suc i) xs"

text \<open>
  \<^verbatim>\<open>std::__insertion_sort\<close>, first its loop from position \<open>i\<close> on. The loop of the
  library runs while \<^verbatim>\<open>i != last\<close>; it starts at \<open>first + 1\<close> in a range that is not
  empty.
\<close>

function insertion_loop ::
  "('a \<Rightarrow> 'a \<Rightarrow> bool) \<Rightarrow> 'a list \<Rightarrow> nat \<Rightarrow> nat \<Rightarrow> nat \<Rightarrow> 'a list option" where
  "insertion_loop cmp xs first i lst =
     (if i < lst then
        (if cmp (xs ! i) (xs ! first)
         then insertion_loop cmp ((move_backward first i xs)[first := xs ! i]) first (i + 1) lst
         else case unguarded_linear_insert cmp (xs ! i) xs i of
                None \<Rightarrow> None
              | Some xs \<Rightarrow> insertion_loop cmp xs first (i + 1) lst)
      else Some xs)"
  by pat_completeness auto
termination
  by (relation "measure (\<lambda>(cmp, xs, first, i, lst). lst - i)") auto

declare insertion_loop.simps [simp del]

definition gnu_insertion_sort ::
  "('a \<Rightarrow> 'a \<Rightarrow> bool) \<Rightarrow> 'a list \<Rightarrow> nat \<Rightarrow> nat \<Rightarrow> 'a list option" where
  "gnu_insertion_sort cmp xs first lst =
     (if first = lst then Some xs else insertion_loop cmp xs first (first + 1) lst)"

text \<open>\<^verbatim>\<open>std::__unguarded_insertion_sort\<close>, from position \<open>i\<close> on.\<close>

function unguarded_insertion_sort ::
  "('a \<Rightarrow> 'a \<Rightarrow> bool) \<Rightarrow> 'a list \<Rightarrow> nat \<Rightarrow> nat \<Rightarrow> 'a list option" where
  "unguarded_insertion_sort cmp xs i lst =
     (if i < lst then
        (case unguarded_linear_insert cmp (xs ! i) xs i of
           None \<Rightarrow> None
         | Some xs \<Rightarrow> unguarded_insertion_sort cmp xs (i + 1) lst)
      else Some xs)"
  by pat_completeness auto
termination
  by (relation "measure (\<lambda>(cmp, xs, i, lst). lst - i)") auto

declare unguarded_insertion_sort.simps [simp del]

text \<open>\<^verbatim>\<open>std::__final_insertion_sort\<close>.\<close>

definition final_insertion_sort ::
  "('a \<Rightarrow> 'a \<Rightarrow> bool) \<Rightarrow> 'a list \<Rightarrow> nat \<Rightarrow> nat \<Rightarrow> 'a list option" where
  "final_insertion_sort cmp xs first lst =
     (if 16 < lst - first then
        (case gnu_insertion_sort cmp xs first (first + 16) of
           None \<Rightarrow> None
         | Some xs \<Rightarrow> unguarded_insertion_sort cmp xs (first + 16) lst)
      else gnu_insertion_sort cmp xs first lst)"

text \<open>\<^verbatim>\<open>std::__sort\<close> on the whole vector.\<close>

definition libstdcxx_sort :: "('a \<Rightarrow> 'a \<Rightarrow> bool) \<Rightarrow> 'a list \<Rightarrow> 'a list option" where
  "libstdcxx_sort cmp xs =
     (if xs = [] then Some xs
      else case introsort_loop cmp xs 0 (length xs) (lg (length xs) * 2) of
             None \<Rightarrow> None
           | Some xs \<Rightarrow> final_insertion_sort cmp xs 0 (length xs))"

text \<open>
  The sorting procedure of the GNU library, to be passed for \<open>srt\<close>. Where the model
  above has no result, nothing is known about its value.
\<close>

definition gnu_sort :: "('a \<Rightarrow> 'a \<Rightarrow> bool) \<Rightarrow> 'a list \<Rightarrow> 'a list" where
  "gnu_sort cmp xs = the (libstdcxx_sort cmp xs)"

text \<open>
  \<^verbatim>\<open>std::unique\<close> followed by \<^verbatim>\<open>erase\<close>: of every run of consecutive elements that
  the predicate relates to the last element kept, only the first stays.
\<close>

fun std_unique :: "('a \<Rightarrow> 'a \<Rightarrow> bool) \<Rightarrow> 'a list \<Rightarrow> 'a list" where
  "std_unique p [] = []"
| "std_unique p [x] = [x]"
| "std_unique p (x # y # ys) =
     (if p x y then std_unique p (x # ys) else x # std_unique p (y # ys))"

section \<open>Pinyin parser (pinyin\_parser.cpp)\<close>

text \<open>\<^verbatim>\<open>struct PinyinParser::ParseResult\<close>.\<close>

record ParseResult =
  candidates :: "wstring list"
  frequencies :: "32 word list"

text \<open>
  The parser holds a reference to a dictionary it does not own and a cache. The
  dictionary is an argument of every operation, so that it can change between calls;
  the cache is the parser's state.
\<close>

type_synonym cache = "wstring \<rightharpoonup> ParseResult"

text \<open>The comparison of the two \<^verbatim>\<open>std::sort\<close> calls on entries.\<close>

definition by_frequency :: "DictEntry \<Rightarrow> DictEntry \<Rightarrow> bool" where
  "by_frequency a b \<longleftrightarrow> frequency a > frequency b"

text \<open>The predicate of the \<^verbatim>\<open>std::unique\<close> call.\<close>

definition same_word :: "DictEntry \<Rightarrow> DictEntry \<Rightarrow> bool" where
  "same_word a b \<longleftrightarrow> word a = word b"

text \<open>The body of the two inner loops of \<^verbatim>\<open>GenerateCandidates\<close>: one combined entry.\<close>

definition combinedEntry :: "DictEntry \<Rightarrow> DictEntry \<Rightarrow> DictEntry" where
  "combinedEntry leftEntry rightEntry =
     \<lparr>word = word leftEntry @ word rightEntry,
      frequency = min (frequency leftEntry) (frequency rightEntry),
      pronunciation = pronunciation leftEntry @ L '' '' @ pronunciation rightEntry,
      tags = [L ''combined'']\<rparr>"

text \<open>
  One iteration of the segmentation loop at split point \<open>i\<close>: the entries appended to
  \<^verbatim>\<open>candidates\<close>, left entries in the outer loop and right entries in the inner one.
\<close>

definition split_at :: "Dictionary \<Rightarrow> wstring \<Rightarrow> nat \<Rightarrow> DictEntry list" where
  "split_at d pinyinSequence i =
     (let leftEntries = Lookup d (take i pinyinSequence);
          rightEntries = Lookup d (drop i pinyinSequence)
      in if leftEntries \<noteq> [] \<and> rightEntries \<noteq> []
         then concat (map (\<lambda>l. map (\<lambda>r. combinedEntry l r) rightEntries) leftEntries)
         else [])"

text \<open>The candidates collected before sorting: the exact match, else all split points.\<close>

definition collect :: "Dictionary \<Rightarrow> wstring \<Rightarrow> DictEntry list" where
  "collect d pinyinSequence =
     (let entries = Lookup d pinyinSequence in
      if entries = [] \<and> length pinyinSequence > 1
      then concat (map (split_at d pinyinSequence) [1 ..< length pinyinSequence])
      else entries)"

text \<open>\<^verbatim>\<open>PinyinParser::GenerateCandidates\<close>.\<close>

definition GenerateCandidates ::
  "((DictEntry \<Rightarrow> DictEntry \<Rightarrow> bool) \<Rightarrow> DictEntry list \<Rightarrow> DictEntry list)
    \<Rightarrow> Dictionary \<Rightarrow> wstring \<Rightarrow> DictEntry list" where
  "GenerateCandidates srt d pinyinSequence =
     (let cands = collect d pinyinSequence;
          cands = srt by_frequency cands;
          cands = std_unique same_word cands
      in if length cands > 20 then take 20 cands else cands)"

text \<open>
  \<^verbatim>\<open>PinyinParser::ParseContinuousPinyin\<close>: the result and the cache after the call.
\<close>

definition ParseContinuousPinyin ::
  "((DictEntry \<Rightarrow> DictEntry \<Rightarrow> bool) \<Rightarrow> DictEntry list \<Rightarrow> DictEntry list)
    \<Rightarrow> Dictionary \<Rightarrow> cache \<Rightarrow> wstring \<Rightarrow> ParseResult \<times> cache" where
  "ParseContinuousPinyin srt d m_cache pinyinSequence =
     (case m_cache pinyinSequence of
        Some cached \<Rightarrow> (cached, m_cache)
      | None \<Rightarrow>
          (let cands = GenerateCandidates srt d pinyinSequence;
               result = \<lparr>candidates = map word cands, frequencies = map frequency cands\<rparr>
           in (result, m_cache(pinyinSequence \<mapsto> result))))"

text \<open>\<^verbatim>\<open>PinyinParser::ClearCache\<close>.\<close>

definition ClearCache :: "cache \<Rightarrow> cache" where
  "ClearCache m_cache = Map.empty"

section \<open>Charset converter (converter.cpp)\<close>

text \<open>\<^verbatim>\<open>class CharsetConverter\<close>: the two character tables.\<close>

record CharsetConverter =
  m_s2t :: "wchar \<rightharpoonup> wchar"
  m_t2s :: "wchar \<rightharpoonup> wchar"

text \<open>The constructor, which runs \<^verbatim>\<open>InitializeMaps\<close>.\<close>

definition CharsetConverter_new :: CharsetConverter where
  "CharsetConverter_new =
     \<lparr>m_s2t = [0x41 \<mapsto> 0x41, 0x42 \<mapsto> 0x42], m_t2s = [0x41 \<mapsto> 0x41, 0x42 \<mapsto> 0x42]\<rparr>"

text \<open>
  The body of both loops of \<^verbatim>\<open>Convert\<close>: a character found in the table is replaced
  by its image, any other character stays.
\<close>

definition substitute :: "(wchar \<rightharpoonup> wchar) \<Rightarrow> wchar \<Rightarrow> wchar" where
  "substitute table ch = (case table ch of Some v \<Rightarrow> v | None \<Rightarrow> ch)"

text \<open>\<^verbatim>\<open>CharsetConverter::Convert\<close>; each loop visits every index of the result once.\<close>

definition Convert :: "CharsetConverter \<Rightarrow> wstring \<Rightarrow> wstring \<Rightarrow> wstring \<Rightarrow> wstring" where
  "Convert cv text from to =
     (if from = to then text
      else if from = L ''Simplified'' \<and> to = L ''Traditional'' then map (substitute (m_s2t cv)) text
      else if from = L ''Traditional'' \<and> to = L ''Simplified'' then map (substitute (m_t2s cv)) text
      else text)"

section \<open>Candidate manager (candidate.cpp)\<close>

text \<open>
  \<^verbatim>\<open>class CandidateManager\<close>. The manager holds a reference to a parser; the parser's
  cache and the dictionary are arguments of the operations that reach them. A weight is
  an \<^verbatim>\<open>int\<close>.
\<close>

record CandidateManager =
  m_selectedCandidate :: wstring
  m_userPreferences :: "wstring \<rightharpoonup> (wstring \<rightharpoonup> 32 word)"

definition CandidateManager_new :: CandidateManager where
  "CandidateManager_new = \<lparr>m_selectedCandidate = [], m_userPreferences = Map.empty\<rparr>"

text \<open>\<^verbatim>\<open>CandidateManager::GetCandidates\<close>: the words of the parse result.\<close>

definition GetCandidates ::
  "((DictEntry \<Rightarrow> DictEntry \<Rightarrow> bool) \<Rightarrow> DictEntry list \<Rightarrow> DictEntry list)
    \<Rightarrow> Dictionary \<Rightarrow> cache \<Rightarrow> wstring \<Rightarrow> wstring list \<times> cache" where
  "GetCandidates srt d m_cache pinyinInput =
     (let (parseResult, m_cache') = ParseContinuousPinyin srt d m_cache pinyinInput
      in (candidates parseResult, m_cache'))"

text \<open>
  \<^verbatim>\<open>CandidateManager::SelectCandidate\<close>. The index is an \<^verbatim>\<open>int\<close>, and the size of the
  list is converted to \<^verbatim>\<open>int\<close> before the comparison.
\<close>

definition SelectCandidate :: "CandidateManager \<Rightarrow> 32 word \<Rightarrow> wstring list \<Rightarrow> bool \<times> CandidateManager" where
  "SelectCandidate mgr index cands =
     (if sint index < 0 \<or> sint index \<ge> sint (word_of_nat (length cands) :: 32 word)
      then (False, mgr)
      else (True, mgr\<lparr>m_selectedCandidate := cands ! nat (sint index)\<rparr>))"

definition GetSelectedCandidate :: "CandidateManager \<Rightarrow> wstring" where
  "GetSelectedCandidate mgr = m_selectedCandidate mgr"

definition ClearSelection :: "CandidateManager \<Rightarrow> CandidateManager" where
  "ClearSelection mgr = mgr\<lparr>m_selectedCandidate := []\<rparr>"

definition HasValidSelection :: "CandidateManager \<Rightarrow> bool" where
  "HasValidSelection mgr \<longleftrightarrow> m_selectedCandidate mgr \<noteq> []"

text \<open>\<^verbatim>\<open>CandidateManager::Reset\<close> acts on the manager and on the parser's cache.\<close>

definition Reset :: "CandidateManager \<times> cache \<Rightarrow> CandidateManager \<times> cache" where
  "Reset st = (ClearSelection (fst st), ClearCache (snd st))"

text \<open>
  \<^verbatim>\<open>CandidateManager::AddUserPreference\<close>:
  \<^verbatim>\<open>m_userPreferences[pinyin][candidate] += preferenceBoost\<close>. Both \<^verbatim>\<open>operator[]\<close>
  insert what is absent (an empty table, the weight 0). The addition is on \<^verbatim>\<open>int\<close>;
  the sum wraps around in two's complement, as it does on the machine.
\<close>

definition AddUserPreference :: "CandidateManager \<Rightarrow> wstring \<Rightarrow> wstring \<Rightarrow> 32 word \<Rightarrow> CandidateManager" where
  "AddUserPreference mgr pinyin candidate preferenceBoost =
     (let inner = (case m_userPreferences mgr pinyin of Some prefs \<Rightarrow> prefs | None \<Rightarrow> Map.empty);
          old = (case inner candidate of Some w \<Rightarrow> w | None \<Rightarrow> 0)
      in mgr\<lparr>m_userPreferences :=
            (m_userPreferences mgr)(pinyin \<mapsto> inner(candidate \<mapsto> old + preferenceBoost))\<rparr>)"

text \<open>The weight of a candidate in a preference table: 0 when it has none.\<close>

definition weight_of :: "(wstring \<rightharpoonup> 32 word) \<Rightarrow> wstring \<Rightarrow> 32 word" where
  "weight_of prefs candidate = (case prefs candidate of Some w \<Rightarrow> w | None \<Rightarrow> 0)"

text \<open>The comparison of the \<^verbatim>\<open>std::sort\<close> call on weighted candidates.\<close>

definition by_weight :: "wstring \<times> 32 word \<Rightarrow> wstring \<times> 32 word \<Rightarrow> bool" where
  "by_weight a b \<longleftrightarrow> sint (snd a) > sint (snd b)"

text \<open>
  \<^verbatim>\<open>CandidateManager::GetSmartSuggestions\<close>; \<open>srt\<close> sorts the entries in the parser,
  \<open>srtw\<close> the weighted candidates.
\<close>

definition GetSmartSuggestions ::
  "((DictEntry \<Rightarrow> DictEntry \<Rightarrow> bool) \<Rightarrow> DictEntry list \<Rightarrow> DictEntry list)
    \<Rightarrow> ((wstring \<times> 32 word \<Rightarrow> wstring \<times> 32 word \<Rightarrow> bool)
        \<Rightarrow> (wstring \<times> 32 word) list \<Rightarrow> (wstring \<times> 32 word) list)
    \<Rightarrow> Dictionary \<Rightarrow> cache \<Rightarrow> CandidateManager \<Rightarrow> wstring \<Rightarrow> wstring list \<times> cache" where
  "GetSmartSuggestions srt srtw d m_cache mgr pinyinInput =
     (let (cands, m_cache') = GetCandidates srt d m_cache pinyinInput
      in case m_userPreferences mgr pinyinInput of
           None \<Rightarrow> (cands, m_cache')
         | Some prefs \<Rightarrow>
             (let weightedCandidates = map (\<lambda>c. (c, weight_of prefs c)) cands;
                  weightedCandidates = srtw by_weight weightedCandidates
              in (map fst weightedCandidates, m_cache')))"

section \<open>Notions of the specification\<close>

text \<open>
  The rank of a candidate in a list of suggestions: the position of its first
  occurrence, counted from 0.
\<close>

definition rank :: "wstring \<Rightarrow> wstring list \<Rightarrow> nat" where
  "rank c xs = length (takeWhile (\<lambda>x. x \<noteq> c) xs)"

text \<open>The weight the manager has recorded for a candidate under an input key.\<close>

definition current_weight :: "CandidateManager \<Rightarrow> wstring \<Rightarrow> wstring \<Rightarrow> 32 word" where
  "current_weight mgr pinyin candidate =
     (case m_userPreferences mgr pinyin of Some prefs \<Rightarrow> weight_of prefs candidate | None \<Rightarrow> 0)"

text \<open>
  A parse result is ranked when its frequencies do not increase, it has at most 20
  candidates, and one frequency for every candidate.
\<close>

definition ranked :: "ParseResult \<Rightarrow> bool" where
  "ranked r \<longleftrightarrow> sorted_wrt (\<lambda>a b. b \<le> a) (frequencies r)
      \<and> length (candidates r) \<le> 20 \<and> length (frequencies r) = length (candidates r)"

text \<open>
  The caches a parser can hold: the empty cache of a new parser, and what
  \<^verbatim>\<open>ParseContinuousPinyin\<close> (on any dictionary and input) and \<^verbatim>\<open>ClearCache\<close> make of
  such a cache.
\<close>

inductive reachable_cache ::
  "((DictEntry \<Rightarrow> DictEntry \<Rightarrow> bool) \<Rightarrow> DictEntry list \<Rightarrow> DictEntry list) \<Rightarrow> cache \<Rightarrow> bool"
  for srt where
    fresh: "reachable_cache srt Map.empty"
  | parsed: "reachable_cache srt c \<Longrightarrow> reachable_cache srt (snd (ParseContinuousPinyin srt d c s))"
  | cleared: "reachable_cache srt c \<Longrightarrow> reachable_cache srt (ClearCache c)"

text \<open>
  The value of a decimal literal, digit by digit from the left, starting from \<open>acc\<close>.
\<close>

definition decimal_from :: "nat \<Rightarrow> wstring \<Rightarrow> nat" where
  "decimal_from acc ds = foldl (\<lambda>v c. 10 * v + (unat c - 48)) acc ds"

definition decimal_value :: "wstring \<Rightarrow> nat" where
  "decimal_value ds = decimal_from 0 ds"

text \<open>
  What a comparison passed to \<^verbatim>\<open>std::sort\<close> has to be for the insertion sort to
  meet \<open>std_sort_spec\<close>: never true both ways, and its negation transitive.
\<close>

definition strict_weak :: "('a \<Rightarrow> 'a \<Rightarrow> bool) \<Rightarrow> bool" where
  "strict_weak cmp \<longleftrightarrow>
     (\<forall>a b. cmp a b \<longrightarrow> \<not> cmp b a) \<and> (\<forall>a b c. \<not> cmp b a \<longrightarrow> \<not> cmp c b \<longrightarrow> \<not> cmp c a)"

section \<open>Dictionaries and managers of the examples\<close>

definition entry :: "wstring \<Rightarrow> 32 word \<Rightarrow> wstring \<Rightarrow> DictEntry" where
  "entry w f p = \<lparr>word = w, frequency = f, pronunciation = p, tags = []\<rparr>"

text \<open>
  Key \<^verbatim>\<open>a\<close> holds X (5) and Z (4), \<^verbatim>\<open>bc\<close> holds Y (5), \<^verbatim>\<open>ab\<close> holds X (3) and
  \<^verbatim>\<open>c\<close> holds Y (3); no key is \<^verbatim>\<open>abc\<close>.
\<close>

definition dict_abc :: Dictionary where
  "dict_abc = AddEntry (AddEntry (AddEntry (AddEntry (AddEntry Dictionary_new
      (L ''a'') (entry (L ''X'') 5 (L ''a''))) (L ''a'') (entry (L ''Z'') 4 (L ''a'')))
      (L ''bc'') (entry (L ''Y'') 5 (L ''bc''))) (L ''ab'') (entry (L ''X'') 3 (L ''ab'')))
      (L ''c'') (entry (L ''Y'') 3 (L ''c''))"

text \<open>
  The dictionary of the segmentation example: the character U+4F60 with frequency 500
  under \<^verbatim>\<open>ni\<close>, the character U+597D with frequency 500 under \<^verbatim>\<open>hao\<close>.
\<close>

definition dict_nihao :: Dictionary where
  "dict_nihao = AddEntry (AddEntry Dictionary_new
      (L ''ni'') (entry [0x4F60] 500 (L ''ni'')))
      (L ''hao'') (entry [0x597D] 500 (L ''hao''))"

text \<open>
  The same two entries with the frequencies 9 and 2.
\<close>

definition dict_nihao_9_2 :: Dictionary where
  "dict_nihao_9_2 = AddEntry (AddEntry Dictionary_new
      (L ''ni'') (entry [0x4F60] 9 (L ''ni'')))
      (L ''hao'') (entry [0x597D] 2 (L ''hao''))"

text \<open>
  The dictionary of the segmentation example with two more keys: the character U+4F60
  with frequency 900 under \<^verbatim>\<open>n\<close>, the character U+597D with frequency 900 under
  \<^verbatim>\<open>ihao\<close>.
\<close>

definition dict_nihao_900 :: Dictionary where
  "dict_nihao_900 = AddEntry (AddEntry dict_nihao
      (L ''n'') (entry [0x4F60] 900 (L ''n'')))
      (L ''ihao'') (entry [0x597D] 900 (L ''ihao''))"

text \<open>
  The dictionary of the segmentation example with Z (2000) under \<^verbatim>\<open>ihao\<close> and
  twenty-one entries under \<^verbatim>\<open>n\<close>, the words A to U with the frequencies 1021
  down to 1001.
\<close>

definition entries_21 :: "(wstring \<times> 32 word) list" where
  "entries_21 =
     [(L ''A'', 1021), (L ''B'', 1020), (L ''C'', 1019), (L ''D'', 1018), (L ''E'', 1017),
      (L ''F'', 1016), (L ''G'', 1015), (L ''H'', 1014), (L ''I'', 1013), (L ''J'', 1012),
      (L ''K'', 1011), (L ''L'', 1010), (L ''M'', 1009), (L ''N'', 1008), (L ''O'', 1007),
      (L ''P'', 1006), (L ''Q'', 1005), (L ''R'', 1004), (L ''S'', 1003), (L ''T'', 1002),
      (L ''U'', 1001)]"

definition dict_nihao_21 :: Dictionary where
  "dict_nihao_21 = fold (\<lambda>(w, f) d. AddEntry d (L ''n'') (entry w f (L ''n''))) entries_21
     (AddEntry dict_nihao (L ''ihao'') (entry (L ''Z'') 2000 (L ''ihao'')))"

text \<open>Key \<^verbatim>\<open>k\<close> holds A (2) and B (1).\<close>

definition dict_two :: Dictionary where
  "dict_two = AddEntry (AddEntry Dictionary_new
      (L ''k'') (entry (L ''A'') 2 (L ''k'')))
      (L ''k'') (entry (L ''B'') 1 (L ''k''))"

text \<open>
  Key \<^verbatim>\<open>k\<close> holds seventeen entries, the words A to Q with the frequencies 17 down
  to 1.
\<close>

definition dict_17 :: Dictionary where
  "dict_17 = fold (\<lambda>(w, f) d. AddEntry d (L ''k'') (entry w f (L ''k'')))
     [(L ''A'', 17), (L ''B'', 16), (L ''C'', 15), (L ''D'', 14), (L ''E'', 13), (L ''F'', 12),
      (L ''G'', 11), (L ''H'', 10), (L ''I'', 9), (L ''J'', 8), (L ''K'', 7), (L ''L'', 6),
      (L ''M'', 5), (L ''N'', 4), (L ''O'', 3), (L ''P'', 2), (L ''Q'', 1)]
     Dictionary_new"


text \<open>A manager that has a preference table for \<^verbatim>\<open>k\<close> with the one word Z in it.\<close>

definition mgr_other :: CandidateManager where
  "mgr_other = AddUserPreference CandidateManager_new (L ''k'') (L ''Z'') 1"

text \<open>A manager in which A has reached the largest weight, \<^verbatim>\<open>INT_MAX\<close>, under \<^verbatim>\<open>k\<close>.\<close>

definition mgr_max :: CandidateManager where
  "mgr_max = AddUserPreference CandidateManager_new (L ''k'') (L ''A'') 0x7FFFFFFF"

text \<open>
  A file cut off inside the array of its first key:
  \<^verbatim>\<open>{"entries":{"a":[{"word":"x"}\<close>
\<close>

definition truncated_file :: wstring where
  "truncated_file =
     L ''{'' @ [0x22] @ L ''entries'' @ [0x22] @ L '':{'' @ [0x22] @ L ''a'' @ [0x22] @ L '':[{''
       @ [0x22] @ L ''word'' @ [0x22] @ L '':'' @ [0x22] @ L ''x'' @ [0x22] @ L ''}''"


section \<open>Facts about the library algorithms\<close>

lemma mset_insert_by: "mset (insert_by cmp x ys) = add_mset x (mset ys)"
  by (induction ys) auto

lemma set_insert_by: "set (insert_by cmp x ys) = insert x (set ys)"
  by (induction ys) auto

lemma sorted_insert_by:
  assumes "strict_weak cmp" "sorted_wrt (\<lambda>a b. \<not> cmp b a) ys"
  shows "sorted_wrt (\<lambda>a b. \<not> cmp b a) (insert_by cmp x ys)"
  using assms(2)
proof (induction ys)
  case Nil
  then show ?case by simp
next
  case (Cons y ys)
  from assms(1) have asym: "\<And>a b. cmp a b \<Longrightarrow> \<not> cmp b a"
    and tr: "\<And>a b c. \<not> cmp b a \<Longrightarrow> \<not> cmp c b \<Longrightarrow> \<not> cmp c a"
    unfolding strict_weak_def by blast+
  show ?case
  proof (cases "cmp x y")
    case True
    then have "\<not> cmp y x" by (rule asym)
    moreover have "\<forall>z\<in>set ys. \<not> cmp z x"
      using Cons.prems \<open>\<not> cmp y x\<close> tr by auto
    ultimately show ?thesis using True Cons.prems by simp
  next
    case False
    then show ?thesis using Cons by (auto simp: set_insert_by)
  qed
qed

lemma foldl_insert_by:
  "mset (foldl (\<lambda>acc x. insert_by cmp x acc) acc xs) = mset acc + mset xs"
  by (induction xs arbitrary: acc) (auto simp: mset_insert_by)

lemma foldl_insert_by_sorted:
  "strict_weak cmp \<Longrightarrow> sorted_wrt (\<lambda>a b. \<not> cmp b a) acc
    \<Longrightarrow> sorted_wrt (\<lambda>a b. \<not> cmp b a) (foldl (\<lambda>acc x. insert_by cmp x acc) acc xs)"
  by (induction xs arbitrary: acc) (auto simp: sorted_insert_by)

text \<open>The insertion sort does what the standard asks of \<^verbatim>\<open>std::sort\<close>.\<close>

lemma insertion_sort_spec: "strict_weak cmp \<Longrightarrow> std_sort_spec cmp insertion_sort"
  by (simp add: std_sort_spec_def insertion_sort_def foldl_insert_by foldl_insert_by_sorted)

lemma strict_weak_by_frequency: "strict_weak by_frequency"
  by (auto simp: strict_weak_def by_frequency_def)

lemma strict_weak_by_weight: "strict_weak by_weight"
  by (auto simp: strict_weak_def by_weight_def)

lemma sort_single:
  assumes "std_sort_spec cmp srt"
  shows "srt cmp [x] = [x]"
proof -
  have "mset (srt cmp [x]) = mset [x]" using assms unfolding std_sort_spec_def by blast
  then show ?thesis by simp
qed

text \<open>
  A range that is already in strictly decreasing order has one sorted arrangement only,
  so every procedure that meets the guarantee leaves it as it is.
\<close>

lemma sorted_unique:
  assumes asym: "\<And>a b. cmp a b \<Longrightarrow> \<not> cmp b a"
  shows "sorted_wrt cmp xs \<Longrightarrow> mset ys = mset xs \<Longrightarrow> sorted_wrt (\<lambda>a b. \<not> cmp b a) ys \<Longrightarrow> ys = xs"
proof (induction xs arbitrary: ys)
  case Nil
  then show ?case by simp
next
  case (Cons x xs)
  then obtain y ys' where ys: "ys = y # ys'" by (cases ys) auto
  have "y = x"
  proof (rule ccontr)
    assume ne: "y \<noteq> x"
    have "y \<in> set (x # xs)" using Cons.prems(2) ys by (metis list.set_intros(1) mset_eq_setD)
    then have "cmp x y" using ne Cons.prems(1) by auto
    have "x \<in> set (y # ys')" using Cons.prems(2) ys by (metis list.set_intros(1) mset_eq_setD)
    then have "x \<in> set ys'" using ne by auto
    then have "\<not> cmp x y" using Cons.prems(3) ys by auto
    then show False using \<open>cmp x y\<close> by simp
  qed
  moreover have "ys' = xs"
    using Cons.IH[of ys'] Cons.prems ys \<open>y = x\<close> by simp
  ultimately show ?case using ys by simp
qed

lemma sort_strictly_sorted:
  assumes "std_sort_spec by_frequency srt" "sorted_wrt by_frequency xs"
  shows "srt by_frequency xs = xs"
proof -
  have "mset (srt by_frequency xs) = mset xs"
    "sorted_wrt (\<lambda>a b. \<not> by_frequency b a) (srt by_frequency xs)"
    using assms(1) unfolding std_sort_spec_def by blast+
  then show ?thesis
    using sorted_unique[of by_frequency xs "srt by_frequency xs"] assms(2)
    by (auto simp: by_frequency_def)
qed

lemma set_std_unique: "set (std_unique p xs) \<subseteq> set xs"
  by (induction p xs rule: std_unique.induct) auto

lemma sorted_wrt_std_unique: "sorted_wrt P xs \<Longrightarrow> sorted_wrt P (std_unique p xs)"
proof (induction p xs rule: std_unique.induct)
  case (3 p x y ys)
  then show ?case using set_std_unique[of p "y # ys"] set_std_unique[of p "x # ys"]
    by (auto split: if_splits)
qed simp_all

lemma length_filter_mono:
  "(\<And>x. x \<in> set xs \<Longrightarrow> P x \<Longrightarrow> Q x) \<Longrightarrow> length (filter P xs) \<le> length (filter Q xs)"
  by (induction xs) auto

lemma length_filter_mset: "mset ys = mset xs \<Longrightarrow> length (filter P ys) = length (filter P xs)"
  by (metis mset_filter size_mset)

section \<open>Loading a dictionary\<close>




































text \<open>
  The same file cut off one character later, after the closing bracket of the array,
  and two characters later, after the comma that follows it: the outer loop ends with
  the text, and the load returns success. Where the text ends one blank after the
  comma, the load fails.
\<close>

lemma truncated_load_can_succeed:
  "LoadFromFile [L ''d.json'' \<mapsto> truncated_file @ L '']''] (L ''2026-10-30T12:00:00Z'')
      Dictionary_new (L ''d.json'')
     = (True, Dictionary_new\<lparr>m_entries := [(L ''a'', [entry (L ''x'') 0 (L ''a'')])],
                             m_updatedAt := L ''2026-10-30T12:00:00Z''\<rparr>)
   \<and> LoadFromFile [L ''d.json'' \<mapsto> truncated_file @ L ''],''] (L ''2026-10-30T12:00:00Z'')
      Dictionary_new (L ''d.json'')
     = (True, Dictionary_new\<lparr>m_entries := [(L ''a'', [entry (L ''x'') 0 (L ''a'')])],
                             m_updatedAt := L ''2026-10-30T12:00:00Z''\<rparr>)
   \<and> \<not> fst (LoadFromFile [L ''d.json'' \<mapsto> truncated_file @ L ''], ''] (L ''2026-10-30T12:00:00Z'')
      Dictionary_new (L ''d.json''))"
  by code_simp

section \<open>Candidate generation\<close>

text \<open>
  Claim C2. On the dictionary \<open>dict_abc\<close> the input \<^verbatim>\<open>abc\<close> has no exact match and two
  split points with entries on both sides: \<^verbatim>\<open>a|bc\<close> gives XY with frequency 5 and ZY
  with frequency 4, \<^verbatim>\<open>ab|c\<close> gives XY with frequency 3. After the sort by frequency
  the two XY are not neighbours, \<^verbatim>\<open>std::unique\<close> removes neither, and the result
  holds the word XY twice. The sort is the insertion sort here; the three frequencies
  differ, so every sorting procedure gives the same order (the lemma after the theorem).
\<close>

theorem same_word_survives_twice:
  "fst (ParseContinuousPinyin insertion_sort dict_abc Map.empty (L ''abc''))
     = \<lparr>candidates = [L ''XY'', L ''ZY'', L ''XY''], frequencies = [5, 4, 3]\<rparr>"
  by code_simp

text \<open>The same result for every sorting procedure that meets the guarantee.\<close>

lemma same_word_survives_twice_any_sort:
  assumes "std_sort_spec by_frequency srt"
  shows "fst (ParseContinuousPinyin srt dict_abc Map.empty (L ''abc''))
     = \<lparr>candidates = [L ''XY'', L ''ZY'', L ''XY''], frequencies = [5, 4, 3]\<rparr>"
proof -
  let ?cs = "[combinedEntry (entry (L ''X'') 5 (L ''a'')) (entry (L ''Y'') 5 (L ''bc'')),
              combinedEntry (entry (L ''Z'') 4 (L ''a'')) (entry (L ''Y'') 5 (L ''bc'')),
              combinedEntry (entry (L ''X'') 3 (L ''ab'')) (entry (L ''Y'') 3 (L ''c''))]"
  have c: "collect dict_abc (L ''abc'') = ?cs"
    by code_simp
  have "sorted_wrt by_frequency ?cs"
    by (simp add: by_frequency_def combinedEntry_def entry_def)
  then have "srt by_frequency ?cs = ?cs"
    by (rule sort_strictly_sorted[OF assms])
  then have g: "GenerateCandidates srt dict_abc (L ''abc'')
      = (if 20 < length (std_unique same_word ?cs) then take 20 (std_unique same_word ?cs)
         else std_unique same_word ?cs)"
    by (simp only: GenerateCandidates_def Let_def c)
  have "std_unique same_word ?cs = ?cs"
    by (simp add: same_word_def combinedEntry_def entry_def L_def)
  then have "GenerateCandidates srt dict_abc (L ''abc'') = ?cs"
    using g by simp
  then show ?thesis
    by (simp add: ParseContinuousPinyin_def Let_def combinedEntry_def entry_def L_def)
qed

section \<open>Cache behaviour\<close>



section \<open>Segmentation\<close>

text \<open>
  What \<^verbatim>\<open>std::unique\<close> keeps: the first element of the range, the result for a part
  of the range at the front of the result for the whole, and for every element one
  with the same word.
\<close>

lemma std_unique_head: "\<exists>ys. std_unique p (x # xs) = x # ys"
  by (induction p "x # xs" arbitrary: xs rule: std_unique.induct) auto

lemma std_unique_prefix: "\<exists>r. std_unique p (xs @ ys) = std_unique p xs @ r"
proof (induction p xs rule: std_unique.induct)
  case (1 p)
  then show ?case by simp
next
  case (2 p x)
  then show ?case using std_unique_head[of p x ys] by simp
next
  case (3 p x y zs)
  then show ?case by (cases "p x y") auto
qed

lemma length_std_unique: "length (std_unique p xs) \<le> length xs"
  by (induction p xs rule: std_unique.induct) auto

lemma std_unique_same_word:
  "x \<in> set xs \<Longrightarrow> \<exists>y\<in>set (std_unique same_word xs). word y = word x"
proof (induction same_word xs arbitrary: x rule: std_unique.induct)
  case 1
  then show ?case by simp
next
  case (2 x)
  then show ?case by simp
next
  case (3 a b zs)
  show ?case
  proof (cases "same_word a b")
    case True
    have "\<exists>y\<in>set (std_unique same_word (a # zs)). word y = word x"
    proof (cases "x = b")
      case True
      then have "word x = word a" using \<open>same_word a b\<close> by (simp add: same_word_def)
      then show ?thesis using "3.hyps"(1)[OF \<open>same_word a b\<close>, of a] by simp
    next
      case False
      then show ?thesis using "3.hyps"(1)[OF \<open>same_word a b\<close>, of x] "3.prems" by simp
    qed
    then show ?thesis using True by simp
  next
    case False
    then show ?thesis using "3.hyps"(2)[OF False, of x] "3.prems" by auto
  qed
qed

lemma sorted_split:
  fixes g :: "'a \<Rightarrow> 'b::preorder"
  shows "sorted_wrt (\<lambda>a b. g b \<le> g a) xs
    \<Longrightarrow> xs = filter (\<lambda>e. t \<le> g e) xs @ filter (\<lambda>e. \<not> t \<le> g e) xs"
proof (induction xs)
  case Nil
  then show ?case by simp
next
  case (Cons a xs)
  show ?case
  proof (cases "t \<le> g a")
    case True
    then show ?thesis using Cons by simp
  next
    case False
    then have "\<forall>b\<in>set xs. \<not> t \<le> g b" using Cons.prems by (auto dest: order_trans)
    then have "filter (\<lambda>e. t \<le> g e) xs = []" "filter (\<lambda>e. \<not> t \<le> g e) xs = xs"
      by (simp_all add: filter_empty_conv filter_id_conv)
    then show ?thesis using False by simp
  qed
qed

text \<open>
  A collected candidate stays in the result when no candidate with its word has a
  higher frequency and at most 20 candidates have its frequency or a higher one.
\<close>

lemma candidate_stays:
  assumes spec: "std_sort_spec by_frequency srt"
    and mem: "x \<in> set (collect d s)"
    and top: "\<forall>e\<in>set (collect d s). word e = word x \<longrightarrow> frequency e \<le> frequency x"
    and few: "length (filter (\<lambda>e. frequency x \<le> frequency e) (collect d s)) \<le> 20"
  shows "\<exists>y\<in>set (GenerateCandidates srt d s). word y = word x \<and> frequency y = frequency x"
proof -
  define S where "S = srt by_frequency (collect d s)"
  define A where "A = filter (\<lambda>e. frequency x \<le> frequency e) S"
  define B where "B = filter (\<lambda>e. \<not> frequency x \<le> frequency e) S"
  have ms: "mset S = mset (collect d s)"
    and so: "sorted_wrt (\<lambda>a b. \<not> by_frequency b a) S"
    using spec unfolding std_sort_spec_def S_def by blast+
  have st: "set S = set (collect d s)" using ms by (rule mset_eq_setD)
  have "sorted_wrt (\<lambda>a b. frequency b \<le> frequency a) S"
    using so by (simp add: by_frequency_def not_less)
  then have S: "S = A @ B" unfolding A_def B_def by (rule sorted_split)
  have lA: "length A \<le> 20"
    using few length_filter_mset[OF ms, of "\<lambda>e. frequency x \<le> frequency e"] by (simp add: A_def)
  have "x \<in> set A" using mem st by (simp add: A_def)
  then obtain y where y: "y \<in> set (std_unique same_word A)" "word y = word x"
    using std_unique_same_word by blast
  have "y \<in> set A" using y(1) set_std_unique[of same_word A] by auto
  then have "frequency x \<le> frequency y" "y \<in> set (collect d s)"
    using st by (auto simp: A_def)
  then have fy: "frequency y = frequency x" using top y(2) by fastforce
  obtain r where r: "std_unique same_word S = std_unique same_word A @ r"
    using std_unique_prefix[of same_word A B] S by auto
  have "length (std_unique same_word A) \<le> 20"
    using length_std_unique[of same_word A] lA by simp
  then have "y \<in> set (take 20 (std_unique same_word S))"
    using y(1) r by simp
  moreover have "GenerateCandidates srt d s = take 20 (std_unique same_word S)"
    by (simp add: GenerateCandidates_def Let_def S_def)
  ultimately show ?thesis using y(2) fy by auto
qed

text \<open>
  Claim C4 (as amended). Take a dictionary that has no entry under \<^verbatim>\<open>nihao\<close>, an
  entry \<open>l\<close> under \<^verbatim>\<open>ni\<close> and an entry \<open>r\<close> under \<^verbatim>\<open>hao\<close>, a parser that has no
  result for \<^verbatim>\<open>nihao\<close> in its cache, and a sorting procedure that does what the
  standard asks of \<^verbatim>\<open>std::sort\<close>. The segmentation rule combines \<open>l\<close> and \<open>r\<close> into a
  candidate collected for \<^verbatim>\<open>nihao\<close>: its word is the word of \<open>l\<close> followed by the
  word of \<open>r\<close>, its frequency the smaller of the two frequencies. ParseContinuousPinyin
  returns a candidate with this word and this frequency, provided that no collected
  candidate with the same word has a higher frequency (\<^verbatim>\<open>std::unique\<close> keeps that one
  instead) and that at most 20 collected candidates have this frequency or a higher
  one (\<^verbatim>\<open>resize(20)\<close> cuts the others). For the character U+4F60 with frequency 500
  under \<^verbatim>\<open>ni\<close> and the character U+597D with frequency 500 under \<^verbatim>\<open>hao\<close> this is
  the word U+4F60 U+597D with frequency 500.
\<close>

theorem nihao_segmentation:
  assumes "std_sort_spec by_frequency srt"
    and "m_cache (L ''nihao'') = None"
    and "Lookup d (L ''nihao'') = []"
    and "l \<in> set (Lookup d (L ''ni''))"
    and "r \<in> set (Lookup d (L ''hao''))"
    and "\<forall>e\<in>set (collect d (L ''nihao'')).
           word e = word l @ word r \<longrightarrow> frequency e \<le> min (frequency l) (frequency r)"
    and "length (filter (\<lambda>e. min (frequency l) (frequency r) \<le> frequency e)
           (collect d (L ''nihao''))) \<le> 20"
  shows "combinedEntry l r \<in> set (collect d (L ''nihao''))
     \<and> word (combinedEntry l r) = word l @ word r
     \<and> frequency (combinedEntry l r) = min (frequency l) (frequency r)
     \<and> (\<exists>i < length (candidates (fst (ParseContinuousPinyin srt d m_cache (L ''nihao'')))).
          candidates (fst (ParseContinuousPinyin srt d m_cache (L ''nihao''))) ! i
            = word l @ word r
          \<and> frequencies (fst (ParseContinuousPinyin srt d m_cache (L ''nihao''))) ! i
            = min (frequency l) (frequency r))"
proof -
  let ?s = "L ''nihao''"
  let ?g = "GenerateCandidates srt d ?s"
  have up: "[1 ..< 5] = [1, 2, 3, Suc 3]" by (simp add: upt_rec)
  have ne: "Lookup d (L ''ni'') \<noteq> []" "Lookup d (L ''hao'') \<noteq> []"
    using assms(4,5) by auto
  have "combinedEntry l r \<in> set (split_at d ?s (Suc (Suc 0)))"
    using assms(4,5) ne by (auto simp: split_at_def L_def Let_def)
  then have m: "combinedEntry l r \<in> set (collect d ?s)"
    using assms(3) by (simp add: collect_def up L_def)
  have w: "word (combinedEntry l r) = word l @ word r"
    "frequency (combinedEntry l r) = min (frequency l) (frequency r)"
    by (simp_all add: combinedEntry_def)
  have "\<exists>y\<in>set ?g. word y = word (combinedEntry l r) \<and> frequency y = frequency (combinedEntry l r)"
    using assms(6,7) by (intro candidate_stays[OF assms(1) m]) (simp_all only: w)
  then obtain y where y: "y \<in> set ?g" "word y = word l @ word r"
    "frequency y = min (frequency l) (frequency r)"
    using w by auto
  then obtain i where i: "i < length ?g" "?g ! i = y" by (auto simp: in_set_conv_nth)
  have res: "fst (ParseContinuousPinyin srt d m_cache ?s)
      = \<lparr>candidates = map word ?g, frequencies = map frequency ?g\<rparr>"
    using assms(2) by (simp add: ParseContinuousPinyin_def Let_def)
  have "i < length (candidates (fst (ParseContinuousPinyin srt d m_cache ?s)))"
    "candidates (fst (ParseContinuousPinyin srt d m_cache ?s)) ! i = word l @ word r"
    "frequencies (fst (ParseContinuousPinyin srt d m_cache ?s)) ! i = min (frequency l) (frequency r)"
    using i y by (simp_all add: res)
  then show ?thesis using m w by blast
qed


text \<open>
  The theorem on the dictionary that holds the two entries of the example and nothing
  else, and on the one that holds them with the frequencies 9 and 2: the candidate has
  the frequency 500 in the first and 2, the smaller one, in the second.
\<close>

theorem nihao_segmentation_witness:
  "combinedEntry (entry [0x4F60] 500 (L ''ni'')) (entry [0x597D] 500 (L ''hao''))
     \<in> set (collect dict_nihao (L ''nihao''))
   \<and> (\<exists>i < length (candidates (fst (ParseContinuousPinyin insertion_sort dict_nihao Map.empty (L ''nihao'')))).
        candidates (fst (ParseContinuousPinyin insertion_sort dict_nihao Map.empty (L ''nihao''))) ! i
          = [0x4F60, 0x597D]
        \<and> frequencies (fst (ParseContinuousPinyin insertion_sort dict_nihao Map.empty (L ''nihao''))) ! i
          = 500)
   \<and> frequency (combinedEntry (entry [0x4F60] 9 (L ''ni'')) (entry [0x597D] 2 (L ''hao''))) = 2
   \<and> (\<exists>i < length (candidates (fst (ParseContinuousPinyin insertion_sort dict_nihao_9_2 Map.empty (L ''nihao'')))).
        candidates (fst (ParseContinuousPinyin insertion_sort dict_nihao_9_2 Map.empty (L ''nihao''))) ! i
          = [0x4F60, 0x597D]
        \<and> frequencies (fst (ParseContinuousPinyin insertion_sort dict_nihao_9_2 Map.empty (L ''nihao''))) ! i
          = 2)"
proof -
  let ?l = "entry [0x4F60] 500 (L ''ni'')" and ?r = "entry [0x597D] 500 (L ''hao'')"
  let ?l' = "entry [0x4F60] 9 (L ''ni'')" and ?r' = "entry [0x597D] 2 (L ''hao'')"
  have lk: "Lookup dict_nihao (L ''nihao'') = []"
    "?l \<in> set (Lookup dict_nihao (L ''ni''))" "?r \<in> set (Lookup dict_nihao (L ''hao''))"
    by (simp_all add: dict_nihao_def AddEntry_def Dictionary_new_def Lookup_def L_def)
  have lk': "Lookup dict_nihao_9_2 (L ''nihao'') = []"
    "?l' \<in> set (Lookup dict_nihao_9_2 (L ''ni''))" "?r' \<in> set (Lookup dict_nihao_9_2 (L ''hao''))"
    by (simp_all add: dict_nihao_9_2_def AddEntry_def Dictionary_new_def Lookup_def L_def)
  have c: "collect dict_nihao (L ''nihao'') = [combinedEntry ?l ?r]"
    by code_simp
  have c': "collect dict_nihao_9_2 (L ''nihao'') = [combinedEntry ?l' ?r']"
    by code_simp
  have f: "word ?l = [0x4F60]" "word ?r = [0x597D]" "frequency ?l = 500" "frequency ?r = 500"
    "word ?l' = [0x4F60]" "word ?r' = [0x597D]" "frequency ?l' = 9" "frequency ?r' = 2"
    by (simp_all add: entry_def)
  have m: "min (500 :: 32 word) 500 = 500" "min (9 :: 32 word) 2 = 2"
    by simp_all
  have spec: "std_sort_spec by_frequency insertion_sort"
    by (rule insertion_sort_spec[OF strict_weak_by_frequency])
  have 1: "\<forall>e\<in>set (collect dict_nihao (L ''nihao'')).
       word e = word ?l @ word ?r \<longrightarrow> frequency e \<le> min (frequency ?l) (frequency ?r)"
    "length (filter (\<lambda>e. min (frequency ?l) (frequency ?r) \<le> frequency e)
       (collect dict_nihao (L ''nihao''))) \<le> 20"
    by (simp_all add: c combinedEntry_def)
  have 2: "\<forall>e\<in>set (collect dict_nihao_9_2 (L ''nihao'')).
       word e = word ?l' @ word ?r' \<longrightarrow> frequency e \<le> min (frequency ?l') (frequency ?r')"
    "length (filter (\<lambda>e. min (frequency ?l') (frequency ?r') \<le> frequency e)
       (collect dict_nihao_9_2 (L ''nihao''))) \<le> 20"
    by (simp_all add: c' combinedEntry_def)
  show ?thesis
    using nihao_segmentation[OF spec _ lk 1, of Map.empty]
      nihao_segmentation[OF spec _ lk' 2, of Map.empty]
    by (simp add: f m)
qed

text \<open>
  The claim as the spec states it fails on dictionaries that have the two entries and
  no entry under \<^verbatim>\<open>nihao\<close>. In \<open>dict_nihao_900\<close> the split \<^verbatim>\<open>n|ihao\<close> gives the same
  word with frequency 900; after the sort it stands right before the candidate of
  frequency 500, which \<^verbatim>\<open>std::unique\<close> then removes. In \<open>dict_nihao_21\<close> the split
  \<^verbatim>\<open>n|ihao\<close> gives 21 candidates of higher frequency, and the candidate of frequency
  500, the last of 22, is cut by \<^verbatim>\<open>resize(20)\<close>. On \<open>dict_nihao\<close> itself a parser
  that was asked for \<^verbatim>\<open>nihao\<close> while the dictionary was empty answers from its
  cache: no candidate. The sort is the insertion sort here; the frequencies differ, so
  every sorting procedure gives the same order (the lemmas after the theorem).
\<close>

theorem nihao_candidate_displaced:
  "Lookup dict_nihao_900 (L ''nihao'') = []
   \<and> Lookup dict_nihao_900 (L ''ni'') = [entry [0x4F60] 500 (L ''ni'')]
   \<and> Lookup dict_nihao_900 (L ''hao'') = [entry [0x597D] 500 (L ''hao'')]
   \<and> fst (ParseContinuousPinyin insertion_sort dict_nihao_900 Map.empty (L ''nihao''))
       = \<lparr>candidates = [[0x4F60, 0x597D]], frequencies = [900]\<rparr>
   \<and> Lookup dict_nihao_21 (L ''nihao'') = []
   \<and> Lookup dict_nihao_21 (L ''ni'') = [entry [0x4F60] 500 (L ''ni'')]
   \<and> Lookup dict_nihao_21 (L ''hao'') = [entry [0x597D] 500 (L ''hao'')]
   \<and> fst (ParseContinuousPinyin insertion_sort dict_nihao_21 Map.empty (L ''nihao''))
       = \<lparr>candidates = [L ''AZ'', L ''BZ'', L ''CZ'', L ''DZ'', L ''EZ'', L ''FZ'', L ''GZ'',
                      L ''HZ'', L ''IZ'', L ''JZ'', L ''KZ'', L ''LZ'', L ''MZ'', L ''NZ'',
                      L ''OZ'', L ''PZ'', L ''QZ'', L ''RZ'', L ''SZ'', L ''TZ''],
          frequencies = [1021, 1020, 1019, 1018, 1017, 1016, 1015, 1014, 1013, 1012, 1011,
                       1010, 1009, 1008, 1007, 1006, 1005, 1004, 1003, 1002]\<rparr>
   \<and> fst (ParseContinuousPinyin insertion_sort dict_nihao
        (snd (ParseContinuousPinyin insertion_sort Dictionary_new Map.empty (L ''nihao'')))
        (L ''nihao''))
       = \<lparr>candidates = [], frequencies = []\<rparr>"
  by code_simp

text \<open>
  The first two results for every sorting procedure that meets the guarantee; the third
  is so by the theorem on the cache.
\<close>

lemma nihao_900_any_sort:
  assumes "std_sort_spec by_frequency srt"
  shows "fst (ParseContinuousPinyin srt dict_nihao_900 Map.empty (L ''nihao''))
       = \<lparr>candidates = [[0x4F60, 0x597D]], frequencies = [900]\<rparr>"
proof -
  let ?cs = "[combinedEntry (entry [0x4F60] 900 (L ''n'')) (entry [0x597D] 900 (L ''ihao'')),
              combinedEntry (entry [0x4F60] 500 (L ''ni'')) (entry [0x597D] 500 (L ''hao''))]"
  have c: "collect dict_nihao_900 (L ''nihao'') = ?cs"
    by code_simp
  have "sorted_wrt by_frequency ?cs"
    by (simp add: by_frequency_def combinedEntry_def entry_def)
  then have "srt by_frequency ?cs = ?cs"
    by (rule sort_strictly_sorted[OF assms])
  then have g: "GenerateCandidates srt dict_nihao_900 (L ''nihao'')
      = (if 20 < length (std_unique same_word ?cs) then take 20 (std_unique same_word ?cs)
         else std_unique same_word ?cs)"
    by (simp only: GenerateCandidates_def Let_def c)
  have "std_unique same_word ?cs = [hd ?cs]"
    by (simp add: same_word_def combinedEntry_def entry_def)
  then have "GenerateCandidates srt dict_nihao_900 (L ''nihao'') = [hd ?cs]"
    using g by simp
  then show ?thesis
    by (simp add: ParseContinuousPinyin_def Let_def combinedEntry_def entry_def)
qed

lemma nihao_21_any_sort:
  assumes "std_sort_spec by_frequency srt"
  shows "fst (ParseContinuousPinyin srt dict_nihao_21 Map.empty (L ''nihao''))
       = \<lparr>candidates = [L ''AZ'', L ''BZ'', L ''CZ'', L ''DZ'', L ''EZ'', L ''FZ'', L ''GZ'',
                      L ''HZ'', L ''IZ'', L ''JZ'', L ''KZ'', L ''LZ'', L ''MZ'', L ''NZ'',
                      L ''OZ'', L ''PZ'', L ''QZ'', L ''RZ'', L ''SZ'', L ''TZ''],
          frequencies = [1021, 1020, 1019, 1018, 1017, 1016, 1015, 1014, 1013, 1012, 1011,
                       1010, 1009, 1008, 1007, 1006, 1005, 1004, 1003, 1002]\<rparr>"
proof -
  let ?cs = "map (\<lambda>(w, f). combinedEntry (entry w f (L ''n'')) (entry (L ''Z'') 2000 (L ''ihao'')))
               entries_21
             @ [combinedEntry (entry [0x4F60] 500 (L ''ni'')) (entry [0x597D] 500 (L ''hao''))]"
  have c: "collect dict_nihao_21 (L ''nihao'') = ?cs"
    by code_simp
  have "sorted_wrt by_frequency ?cs"
    by (simp add: entries_21_def by_frequency_def combinedEntry_def entry_def)
  then have "srt by_frequency ?cs = ?cs"
    by (rule sort_strictly_sorted[OF assms])
  then have g: "GenerateCandidates srt dict_nihao_21 (L ''nihao'')
      = (if 20 < length (std_unique same_word ?cs) then take 20 (std_unique same_word ?cs)
         else std_unique same_word ?cs)"
    by (simp only: GenerateCandidates_def Let_def c)
  have "std_unique same_word ?cs = ?cs"
    by (simp add: entries_21_def same_word_def combinedEntry_def entry_def L_def)
  then have "GenerateCandidates srt dict_nihao_21 (L ''nihao'') = take 20 ?cs"
    using g by simp
  then show ?thesis
    by (simp add: entries_21_def ParseContinuousPinyin_def Let_def combinedEntry_def entry_def L_def)
qed

section \<open>Ranking\<close>

lemma GenerateCandidates_sorted:
  assumes "std_sort_spec by_frequency srt"
  shows "sorted_wrt (\<lambda>a b. frequency b \<le> frequency a) (GenerateCandidates srt d s)"
proof -
  have "sorted_wrt (\<lambda>a b. \<not> by_frequency b a) (srt by_frequency (collect d s))"
    using assms by (simp add: std_sort_spec_def)
  then have "sorted_wrt (\<lambda>a b. frequency b \<le> frequency a) (srt by_frequency (collect d s))"
    by (simp add: by_frequency_def not_less)
  then show ?thesis
    by (simp add: GenerateCandidates_def Let_def sorted_wrt_std_unique)
qed

lemma GenerateCandidates_length: "length (GenerateCandidates srt d s) \<le> 20"
  by (simp add: GenerateCandidates_def Let_def)

lemma ranked_generated:
  "std_sort_spec by_frequency srt \<Longrightarrow>
    ranked \<lparr>candidates = map word (GenerateCandidates srt d s),
            frequencies = map frequency (GenerateCandidates srt d s)\<rparr>"
  using GenerateCandidates_sorted[of srt d s] GenerateCandidates_length[of srt d s]
  by (simp add: ranked_def sorted_wrt_map)

text \<open>Every result in a cache that a parser can hold is ranked.\<close>

lemma reachable_cache_ranked:
  assumes "std_sort_spec by_frequency srt" "reachable_cache srt c"
  shows "c k = Some r \<Longrightarrow> ranked r"
  using assms(2)
proof (induction arbitrary: k r)
  case fresh
  then show ?case by simp
next
  case (parsed c d s)
  then show ?case using ranked_generated[OF assms(1), of d s]
    by (auto simp: ParseContinuousPinyin_def Let_def split: option.splits if_splits)
next
  case (cleared c)
  then show ?case by (simp add: ClearCache_def)
qed

text \<open>
  Claim C5. Let the sorting procedure do what the standard asks of \<^verbatim>\<open>std::sort\<close>, and
  let the cache be one that a parser can hold. Then for every dictionary and every
  input the frequencies of the result of ParseContinuousPinyin do not increase along
  the sequence, the result has at most 20 candidates, and as many frequencies as
  candidates. The result may be empty.
\<close>

theorem result_ranked_and_bounded:
  assumes "std_sort_spec by_frequency srt" "reachable_cache srt m_cache"
  shows "sorted_wrt (\<lambda>a b. b \<le> a) (frequencies (fst (ParseContinuousPinyin srt d m_cache s)))
       \<and> length (candidates (fst (ParseContinuousPinyin srt d m_cache s))) \<le> 20
       \<and> length (frequencies (fst (ParseContinuousPinyin srt d m_cache s)))
           = length (candidates (fst (ParseContinuousPinyin srt d m_cache s)))"
proof -
  have "ranked (fst (ParseContinuousPinyin srt d m_cache s))"
  proof (cases "m_cache s")
    case None
    then show ?thesis using ranked_generated[OF assms(1), of d s]
      by (simp add: ParseContinuousPinyin_def Let_def)
  next
    case (Some r)
    then show ?thesis using reachable_cache_ranked[OF assms Some]
      by (simp add: ParseContinuousPinyin_def)
  qed
  then show ?thesis by (simp add: ranked_def)
qed

text \<open>
  The theorem for a parser that has parsed \<^verbatim>\<open>k\<close> on \<open>dict_two\<close> and is then asked
  for \<^verbatim>\<open>abc\<close> on \<open>dict_abc\<close>.
\<close>

theorem result_ranked_and_bounded_witness:
  "fst (ParseContinuousPinyin insertion_sort dict_abc
      (snd (ParseContinuousPinyin insertion_sort dict_two Map.empty (L ''k''))) (L ''abc''))
     = \<lparr>candidates = [L ''XY'', L ''ZY'', L ''XY''], frequencies = [5, 4, 3]\<rparr>
   \<and> sorted_wrt (\<lambda>a b. b \<le> a) [5, 4, 3 :: 32 word]
   \<and> length [L ''XY'', L ''ZY'', L ''XY''] \<le> 20"
proof -
  have e: "fst (ParseContinuousPinyin insertion_sort dict_abc
      (snd (ParseContinuousPinyin insertion_sort dict_two Map.empty (L ''k''))) (L ''abc''))
     = \<lparr>candidates = [L ''XY'', L ''ZY'', L ''XY''], frequencies = [5, 4, 3]\<rparr>"
    by code_simp
  show ?thesis
    using result_ranked_and_bounded
      [OF insertion_sort_spec[OF strict_weak_by_frequency] parsed[OF fresh],
        of dict_abc dict_two "L ''k''" "L ''abc''"] e
    by simp
qed

section \<open>Suggestions ordered by user preference\<close>

text \<open>
  A call of GetSmartSuggestions leaves a cache from which the same key has the same base
  candidates, so the suggestions of a later call for that key are those of a call on
  the cache before.
\<close>

lemma candidates_after_candidates:
  "fst (GetCandidates srt d (snd (GetCandidates srt d m_cache k)) k)
     = fst (GetCandidates srt d m_cache k)"
  by (simp add: GetCandidates_def ParseContinuousPinyin_def Let_def split: option.splits)

lemma suggestions_cache:
  "snd (GetSmartSuggestions srt srtw d m_cache mgr k) = snd (GetCandidates srt d m_cache k)"
  by (simp add: GetSmartSuggestions_def Let_def split: prod.splits option.splits)

lemma suggestions_of_candidates:
  "fst (GetSmartSuggestions srt srtw d m_cache mgr k)
     = (case m_userPreferences mgr k of
          None \<Rightarrow> fst (GetCandidates srt d m_cache k)
        | Some prefs \<Rightarrow>
            map fst (srtw by_weight
              (map (\<lambda>c. (c, weight_of prefs c)) (fst (GetCandidates srt d m_cache k)))))"
  by (simp add: GetSmartSuggestions_def Let_def split: prod.splits option.splits)

lemma suggestions_from_candidates:
  assumes "fst (GetCandidates srt d c1 k) = fst (GetCandidates srt d c2 k)"
  shows "fst (GetSmartSuggestions srt srtw d c1 mgr k) = fst (GetSmartSuggestions srt srtw d c2 mgr k)"
  by (simp only: suggestions_of_candidates assms)

lemma suggestions_after_suggestions:
  "fst (GetSmartSuggestions srt srtw d (snd (GetSmartSuggestions srt srtw d m_cache mgr k)) mgr' k)
     = fst (GetSmartSuggestions srt srtw d m_cache mgr' k)"
  by (rule suggestions_from_candidates) (simp add: suggestions_cache candidates_after_candidates)

text \<open>
  The straight insertion sort keeps the candidates of one weight in the order they had.
\<close>

lemma insert_by_weight_stable:
  assumes "sorted_wrt (\<lambda>a b. \<not> by_weight b a) ys"
  shows "filter (\<lambda>p. snd p = w) (insert_by by_weight x ys)
     = (if snd x = w then filter (\<lambda>p. snd p = w) ys @ [x] else filter (\<lambda>p. snd p = w) ys)"
  using assms
proof (induction ys)
  case Nil
  then show ?case by simp
next
  case (Cons y ys)
  show ?case
  proof (cases "by_weight x y")
    case True
    have "\<forall>z\<in>set (y # ys). snd z \<noteq> snd x"
      using True Cons.prems by (auto simp: by_weight_def)
    then have "snd x = w \<Longrightarrow> filter (\<lambda>p. snd p = w) (y # ys) = []"
      by (auto simp: filter_empty_conv)
    then show ?thesis using True by auto
  next
    case False
    then show ?thesis using Cons by auto
  qed
qed

lemma foldl_insert_by_weight_stable:
  assumes "sorted_wrt (\<lambda>a b. \<not> by_weight b a) acc"
  shows "filter (\<lambda>p. snd p = w) (foldl (\<lambda>acc x. insert_by by_weight x acc) acc xs)
     = filter (\<lambda>p. snd p = w) acc @ filter (\<lambda>p. snd p = w) xs"
  using assms
proof (induction xs arbitrary: acc)
  case Nil
  then show ?case by simp
next
  case (Cons x xs)
  have "sorted_wrt (\<lambda>a b. \<not> by_weight b a) (insert_by by_weight x acc)"
    using sorted_insert_by[OF strict_weak_by_weight Cons.prems] .
  then show ?case
    using Cons.IH[of "insert_by by_weight x acc"] insert_by_weight_stable[OF Cons.prems, of w x]
    by simp
qed

lemma insertion_sort_stable:
  "filter (\<lambda>p. snd p = w) (insertion_sort by_weight xs) = filter (\<lambda>p. snd p = w) xs"
  using foldl_insert_by_weight_stable[of "[]" w xs] by (simp add: insertion_sort_def)

lemma suggestions_stable:
  assumes "m_userPreferences mgr k = Some prefs"
  shows "filter (\<lambda>c. weight_of prefs c = w)
           (fst (GetSmartSuggestions srt insertion_sort d m_cache mgr k))
       = filter (\<lambda>c. weight_of prefs c = w) (fst (GetCandidates srt d m_cache k))"
proof -
  define base where "base = fst (GetCandidates srt d m_cache k)"
  let ?xs = "map (\<lambda>c. (c, weight_of prefs c)) base"
  let ?ys = "insertion_sort by_weight ?xs"
  have r: "fst (GetSmartSuggestions srt insertion_sort d m_cache mgr k) = map fst ?ys"
    using assms by (simp add: suggestions_of_candidates base_def)
  have "mset ?ys = mset ?xs"
    using insertion_sort_spec[OF strict_weak_by_weight] unfolding std_sort_spec_def by blast
  then have "set ?ys = set ?xs" by (rule mset_eq_setD)
  then have w: "\<And>p. p \<in> set ?ys \<Longrightarrow> weight_of prefs (fst p) = snd p" by auto
  have wx: "\<And>p. p \<in> set ?xs \<Longrightarrow> weight_of prefs (fst p) = snd p" by auto
  have "filter (\<lambda>c. weight_of prefs c = w) (map fst ?ys)
      = map fst (filter (\<lambda>p. weight_of prefs (fst p) = w) ?ys)"
    by (simp add: filter_map comp_def)
  also have "filter (\<lambda>p. weight_of prefs (fst p) = w) ?ys = filter (\<lambda>p. snd p = w) ?ys"
    by (rule filter_cong) (simp_all add: w)
  also have "\<dots> = filter (\<lambda>p. snd p = w) ?xs" by (rule insertion_sort_stable)
  also have "\<dots> = filter (\<lambda>p. weight_of prefs (fst p) = w) ?xs"
    by (rule filter_cong) (simp_all add: wx)
  also have "map fst \<dots> = filter (\<lambda>c. weight_of prefs c = w) (map fst ?xs)"
    by (simp add: filter_map comp_def)
  also have "map fst ?xs = base" by (induction base) simp_all
  finally show ?thesis unfolding r base_def .
qed

text \<open>
  On a vector of at most 16 elements the \<^verbatim>\<open>std::sort\<close> of the GNU library is its
  insertion sort alone. That one looks for the place of an element from the right,
  \<open>insert_by\<close> from the left; in a sorted range both find the same place.
\<close>

lemma insert_by_append_last:
  "cmp x y \<Longrightarrow> insert_by cmp x (p @ [y]) = insert_by cmp x p @ [y]"
  by (induction p) auto

lemma insert_by_behind: "\<forall>z\<in>set p. \<not> cmp x z \<Longrightarrow> insert_by cmp x p = p @ [x]"
  by (induction p) auto

lemma unguarded_linear_insert_sorted:
  assumes sw: "strict_weak cmp"
  shows "sorted_wrt (\<lambda>a b. \<not> cmp b a) p \<Longrightarrow> p \<noteq> [] \<Longrightarrow> \<not> cmp x (hd p)
    \<Longrightarrow> unguarded_linear_insert cmp x (p @ h # q) (length p) = Some (insert_by cmp x p @ q)"
proof (induction p arbitrary: h q rule: rev_induct)
  case Nil
  then show ?case by simp
next
  case (snoc y p')
  from sw have tr: "\<And>a b c. \<not> cmp b a \<Longrightarrow> \<not> cmp c b \<Longrightarrow> \<not> cmp c a"
    unfolding strict_weak_def by blast
  have nth: "((p' @ [y]) @ h # q) ! length p' = y" by (simp add: nth_append)
  have so: "sorted_wrt (\<lambda>a b. \<not> cmp b a) p'" "\<forall>z\<in>set p'. \<not> cmp y z"
    using snoc.prems(1) by (auto simp: sorted_wrt_append)
  show ?case
  proof (cases "cmp x y")
    case True
    then have ne: "p' \<noteq> []" using snoc.prems(3) by (cases p') auto
    then have hd: "\<not> cmp x (hd p')" using snoc.prems(3) by (cases p') auto
    have upd: "((p' @ [y]) @ h # q)[Suc (length p') := y] = p' @ y # y # q"
      by (simp add: list_update_append)
    have "unguarded_linear_insert cmp x ((p' @ [y]) @ h # q) (length (p' @ [y]))
        = unguarded_linear_insert cmp x (p' @ y # y # q) (length p')"
      using True nth upd by (subst unguarded_linear_insert.simps) simp
    also have "\<dots> = Some (insert_by cmp x p' @ y # q)"
      using snoc.IH[OF so(1) ne hd] .
    finally show ?thesis using True by (simp add: insert_by_append_last)
  next
    case False
    have "\<forall>z\<in>set (p' @ [y]). \<not> cmp x z" using False so(2) tr by auto
    then have ib: "insert_by cmp x (p' @ [y]) = p' @ [y, x]"
      using insert_by_behind[of "p' @ [y]" cmp x] by simp
    have upd: "((p' @ [y]) @ h # q)[Suc (length p') := x] = p' @ y # x # q"
      by (simp add: list_update_append)
    show ?thesis
      using False nth upd ib by (subst unguarded_linear_insert.simps) simp
  qed
qed

lemma insertion_loop_foldl:
  assumes sw: "strict_weak cmp"
  shows "sorted_wrt (\<lambda>a b. \<not> cmp b a) p \<Longrightarrow> p \<noteq> []
    \<Longrightarrow> insertion_loop cmp (p @ rest) 0 (length p) (length p + length rest)
        = Some (foldl (\<lambda>acc x. insert_by cmp x acc) p rest)"
proof (induction rest arbitrary: p)
  case Nil
  then show ?case by (subst insertion_loop.simps) simp
next
  case (Cons x rest)
  obtain y ys where p: "p = y # ys" using Cons.prems(2) by (cases p) auto
  have nth: "(p @ x # rest) ! length p = x" "(p @ x # rest) ! 0 = y"
    by (simp_all add: p)
  have so: "sorted_wrt (\<lambda>a b. \<not> cmp b a) (insert_by cmp x p)"
    using sorted_insert_by[OF sw Cons.prems(1)] .
  have ne: "insert_by cmp x p \<noteq> []" by (cases p) auto
  have len: "length (insert_by cmp x p) = Suc (length p)"
    using arg_cong[OF mset_insert_by[of cmp x p], of size] by simp
  have step: "insertion_loop cmp (insert_by cmp x p @ rest) 0 (Suc (length p)) (length p + length (x # rest))
      = Some (foldl (\<lambda>acc x. insert_by cmp x acc) (insert_by cmp x p) rest)"
    using Cons.IH[OF so ne] len by simp
  show ?case
  proof (cases "cmp x y")
    case True
    have "(move_backward 0 (length p) (p @ x # rest))[0 := x] = insert_by cmp x p @ rest"
      using True by (simp add: move_backward_def p)
    then show ?thesis
      using True nth step by (subst insertion_loop.simps) simp
  next
    case False
    have "unguarded_linear_insert cmp x (p @ x # rest) (length p) = Some (insert_by cmp x p @ rest)"
      using unguarded_linear_insert_sorted[OF sw Cons.prems(1) Cons.prems(2)] False p by simp
    then show ?thesis
      using False nth step by (subst insertion_loop.simps) simp
  qed
qed

lemma libstdcxx_sort_short:
  assumes "strict_weak cmp" "length xs \<le> 16"
  shows "libstdcxx_sort cmp xs = Some (insertion_sort cmp xs)"
proof (cases xs)
  case Nil
  then show ?thesis by (simp add: libstdcxx_sort_def insertion_sort_def)
next
  case (Cons x rest)
  have "insertion_loop cmp ([x] @ rest) 0 (length [x]) (length [x] + length rest)
      = Some (foldl (\<lambda>acc x. insert_by cmp x acc) [x] rest)"
    by (rule insertion_loop_foldl[OF assms(1)]) simp_all
  then have "gnu_insertion_sort cmp xs 0 (length xs) = Some (insertion_sort cmp xs)"
    by (simp add: gnu_insertion_sort_def insertion_sort_def Cons)
  then show ?thesis
    using assms(2) Cons
    by (simp add: libstdcxx_sort_def final_insertion_sort_def introsort_loop.simps[of _ _ 0])
qed

lemma gnu_sort_short:
  "strict_weak cmp \<Longrightarrow> length xs \<le> 16 \<Longrightarrow> gnu_sort cmp xs = insertion_sort cmp xs"
  by (simp add: gnu_sort_def libstdcxx_sort_short)

lemma suggestions_gnu_short:
  assumes "length (fst (GetCandidates srt d m_cache k)) \<le> 16"
  shows "fst (GetSmartSuggestions srt gnu_sort d m_cache mgr k)
       = fst (GetSmartSuggestions srt insertion_sort d m_cache mgr k)"
  using assms
  by (simp add: suggestions_of_candidates gnu_sort_short[OF strict_weak_by_weight]
      split: option.splits)

text \<open>
  Claim C6 (as amended). Without a preference table for the input key,
  GetSmartSuggestions returns what GetCandidates returns. With a table, and a sorting
  procedure that does what the standard asks of \<^verbatim>\<open>std::sort\<close>, it returns the same
  candidates in an order in which the recorded weights, read as signed numbers and 0
  for a candidate without one, do not increase; the cache is the one GetCandidates
  leaves. The order of candidates of equal weight is left to the sorting procedure: the
  code calls \<^verbatim>\<open>std::sort\<close>, which does not promise to keep it. Where the procedure
  is the straight insertion sort, the candidates of every weight \<open>w\<close> keep the order
  they had among the base candidates; so they do with the \<^verbatim>\<open>std::sort\<close> of the GNU
  library when there are at most 16 base candidates.
\<close>

theorem smart_suggestions_order:
  "(m_userPreferences mgr k = None \<longrightarrow>
      GetSmartSuggestions srt srtw d m_cache mgr k = GetCandidates srt d m_cache k)
   \<and> (m_userPreferences mgr k \<noteq> None \<and> std_sort_spec by_weight srtw \<longrightarrow>
        mset (fst (GetSmartSuggestions srt srtw d m_cache mgr k))
          = mset (fst (GetCandidates srt d m_cache k))
        \<and> sorted_wrt (\<lambda>a b. sint (current_weight mgr k b) \<le> sint (current_weight mgr k a))
            (fst (GetSmartSuggestions srt srtw d m_cache mgr k))
        \<and> snd (GetSmartSuggestions srt srtw d m_cache mgr k) = snd (GetCandidates srt d m_cache k))
   \<and> (m_userPreferences mgr k \<noteq> None \<and> srtw = insertion_sort \<longrightarrow>
        filter (\<lambda>c. current_weight mgr k c = w)
            (fst (GetSmartSuggestions srt srtw d m_cache mgr k))
          = filter (\<lambda>c. current_weight mgr k c = w) (fst (GetCandidates srt d m_cache k)))
   \<and> (m_userPreferences mgr k \<noteq> None \<and> srtw = gnu_sort
          \<and> length (fst (GetCandidates srt d m_cache k)) \<le> 16 \<longrightarrow>
        filter (\<lambda>c. current_weight mgr k c = w)
            (fst (GetSmartSuggestions srt srtw d m_cache mgr k))
          = filter (\<lambda>c. current_weight mgr k c = w) (fst (GetCandidates srt d m_cache k)))"
proof (intro conjI impI)
  assume "m_userPreferences mgr k = None"
  then show "GetSmartSuggestions srt srtw d m_cache mgr k = GetCandidates srt d m_cache k"
    by (simp add: GetSmartSuggestions_def split: prod.splits)
next
  assume a: "m_userPreferences mgr k \<noteq> None \<and> std_sort_spec by_weight srtw"
  then obtain prefs where p: "m_userPreferences mgr k = Some prefs" by auto
  have cw: "\<And>c. current_weight mgr k c = weight_of prefs c"
    by (simp add: current_weight_def p)
  define base where "base = fst (GetCandidates srt d m_cache k)"
  let ?xs = "map (\<lambda>c. (c, weight_of prefs c)) base"
  have r: "fst (GetSmartSuggestions srt srtw d m_cache mgr k) = map fst (srtw by_weight ?xs)"
    using p by (simp add: GetSmartSuggestions_def base_def Let_def split: prod.splits)
  have ms: "mset (srtw by_weight ?xs) = mset ?xs"
    and so: "sorted_wrt (\<lambda>a b. \<not> by_weight b a) (srtw by_weight ?xs)"
    using a by (simp_all add: std_sort_spec_def)
  have mf: "map fst ?xs = base" by (induction base) simp_all
  have "mset (map fst (srtw by_weight ?xs)) = image_mset fst (mset (srtw by_weight ?xs))"
    by simp
  also have "\<dots> = image_mset fst (mset ?xs)" by (simp only: ms)
  also have "\<dots> = mset (map fst ?xs)" by (simp only: mset_map)
  also have "\<dots> = mset base" by (simp only: mf)
  finally have "mset (map fst (srtw by_weight ?xs)) = mset base" .
  then show "mset (fst (GetSmartSuggestions srt srtw d m_cache mgr k))
          = mset (fst (GetCandidates srt d m_cache k))"
    by (simp only: r base_def)
  have "set (srtw by_weight ?xs) = set ?xs" using ms by (rule mset_eq_setD)
  then have w: "\<And>p. p \<in> set (srtw by_weight ?xs) \<Longrightarrow> weight_of prefs (fst p) = snd p" by auto
  have "sorted_wrt (\<lambda>a b. sint (snd b) \<le> sint (snd a)) (srtw by_weight ?xs)"
    using so by (simp add: by_weight_def not_less)
  then have "sorted_wrt (\<lambda>a b. sint (weight_of prefs (fst b)) \<le> sint (weight_of prefs (fst a)))
      (srtw by_weight ?xs)"
    by (rule sorted_wrt_mono_rel[rotated]) (simp add: w)
  then show "sorted_wrt (\<lambda>a b. sint (current_weight mgr k b) \<le> sint (current_weight mgr k a))
            (fst (GetSmartSuggestions srt srtw d m_cache mgr k))"
    by (simp only: r sorted_wrt_map cw)
  show "snd (GetSmartSuggestions srt srtw d m_cache mgr k) = snd (GetCandidates srt d m_cache k)"
    by (rule suggestions_cache)
next
  assume a: "m_userPreferences mgr k \<noteq> None \<and> srtw = insertion_sort"
  then obtain prefs where p: "m_userPreferences mgr k = Some prefs" by auto
  have cw: "\<And>c. current_weight mgr k c = weight_of prefs c"
    by (simp add: current_weight_def p)
  show "filter (\<lambda>c. current_weight mgr k c = w)
            (fst (GetSmartSuggestions srt srtw d m_cache mgr k))
          = filter (\<lambda>c. current_weight mgr k c = w) (fst (GetCandidates srt d m_cache k))"
    using suggestions_stable[OF p, of w srt d m_cache] a by (simp only: cw)
next
  assume a: "m_userPreferences mgr k \<noteq> None \<and> srtw = gnu_sort
          \<and> length (fst (GetCandidates srt d m_cache k)) \<le> 16"
  then obtain prefs where p: "m_userPreferences mgr k = Some prefs" by auto
  have cw: "\<And>c. current_weight mgr k c = weight_of prefs c"
    by (simp add: current_weight_def p)
  have g: "fst (GetSmartSuggestions srt srtw d m_cache mgr k)
      = fst (GetSmartSuggestions srt insertion_sort d m_cache mgr k)"
    using a suggestions_gnu_short[of srt d m_cache k mgr] by simp
  show "filter (\<lambda>c. current_weight mgr k c = w)
            (fst (GetSmartSuggestions srt srtw d m_cache mgr k))
          = filter (\<lambda>c. current_weight mgr k c = w) (fst (GetCandidates srt d m_cache k))"
    using suggestions_stable[OF p, of w srt d m_cache] by (simp only: cw g)
qed

text \<open>
  The theorem for a manager in which B has weight 3 under \<^verbatim>\<open>k\<close> and A has none, and
  for a manager without preferences: B moves in front of A in the first, the order
  of the candidates stays in the second. With the manager \<open>mgr_other\<close>, in which A and
  B both have weight 0, the order A, B stays, under the insertion sort and under the
  \<^verbatim>\<open>std::sort\<close> of the GNU library.
\<close>

theorem smart_suggestions_order_witness:
  "fst (GetSmartSuggestions insertion_sort insertion_sort dict_two Map.empty
        (AddUserPreference CandidateManager_new (L ''k'') (L ''B'') 3) (L ''k''))
     = [L ''B'', L ''A'']
   \<and> mset [L ''B'', L ''A''] = mset (fst (GetCandidates insertion_sort dict_two Map.empty (L ''k'')))
   \<and> GetSmartSuggestions insertion_sort insertion_sort dict_two Map.empty CandidateManager_new (L ''k'')
     = GetCandidates insertion_sort dict_two Map.empty (L ''k'')
   \<and> fst (GetSmartSuggestions insertion_sort insertion_sort dict_two Map.empty mgr_other (L ''k''))
     = [L ''A'', L ''B'']
   \<and> filter (\<lambda>c. current_weight mgr_other (L ''k'') c = 0)
        (fst (GetSmartSuggestions gnu_sort gnu_sort dict_two Map.empty mgr_other (L ''k'')))
     = [L ''A'', L ''B'']"
proof -
  let ?mgr = "AddUserPreference CandidateManager_new (L ''k'') (L ''B'') 3"
  have s: "fst (GetSmartSuggestions insertion_sort insertion_sort dict_two Map.empty mgr_other (L ''k''))
     = [L ''A'', L ''B'']"
    by code_simp
  have p: "m_userPreferences ?mgr (L ''k'') \<noteq> None"
    by (simp add: AddUserPreference_def Let_def)
  have n: "m_userPreferences CandidateManager_new (L ''k'') = None"
    by (simp add: CandidateManager_new_def)
  have e: "fst (GetSmartSuggestions insertion_sort insertion_sort dict_two Map.empty ?mgr (L ''k''))
     = [L ''B'', L ''A'']"
    by code_simp
  have o: "m_userPreferences mgr_other (L ''k'') \<noteq> None"
    by (simp add: mgr_other_def AddUserPreference_def Let_def)
  have b: "fst (GetCandidates gnu_sort dict_two Map.empty (L ''k'')) = [L ''A'', L ''B'']"
    by code_simp
  have w: "current_weight mgr_other (L ''k'') (L ''A'') = 0"
    "current_weight mgr_other (L ''k'') (L ''B'') = 0"
    by code_simp+
  have "filter (\<lambda>c. current_weight mgr_other (L ''k'') c = 0)
        (fst (GetSmartSuggestions gnu_sort gnu_sort dict_two Map.empty mgr_other (L ''k'')))
      = filter (\<lambda>c. current_weight mgr_other (L ''k'') c = 0) [L ''A'', L ''B'']"
    using smart_suggestions_order[of mgr_other "L ''k''" gnu_sort gnu_sort dict_two Map.empty 0]
      o b by simp
  then have g: "filter (\<lambda>c. current_weight mgr_other (L ''k'') c = 0)
        (fst (GetSmartSuggestions gnu_sort gnu_sort dict_two Map.empty mgr_other (L ''k'')))
      = [L ''A'', L ''B'']"
    using w by simp
  show ?thesis
    using smart_suggestions_order[of ?mgr "L ''k''" insertion_sort insertion_sort dict_two Map.empty]
      smart_suggestions_order[of CandidateManager_new "L ''k''" insertion_sort insertion_sort
        dict_two Map.empty]
      p n e s g insertion_sort_spec[OF strict_weak_by_weight]
    by simp
qed

text \<open>
  The claim as the spec states it asks for the original order among equal weights. The
  dictionary \<open>dict_17\<close> has seventeen entries under \<^verbatim>\<open>k\<close>, and the base candidates
  are their words A to Q in this order. The manager \<open>mgr_other\<close> has a table for
  \<^verbatim>\<open>k\<close> in which none of them has a weight, so all seventeen have weight 0. On 17
  elements the \<^verbatim>\<open>std::sort\<close> of the GNU library partitions once: it swaps the middle
  element I to the front as the pivot, and then the elements from both ends towards
  the middle, since no comparison stops a scan. The insertion sort that follows moves
  nothing. The suggestions are I, Q, P, O, N, M, L, K, J, A, H, G, F, E, D, C, B.
\<close>

theorem seventeen_equal_weights_reordered:
  "fst (GetCandidates gnu_sort dict_17 Map.empty (L ''k''))
     = [L ''A'', L ''B'', L ''C'', L ''D'', L ''E'', L ''F'', L ''G'', L ''H'', L ''I'',
        L ''J'', L ''K'', L ''L'', L ''M'', L ''N'', L ''O'', L ''P'', L ''Q'']
   \<and> fst (GetSmartSuggestions gnu_sort gnu_sort dict_17 Map.empty mgr_other (L ''k''))
     = [L ''I'', L ''Q'', L ''P'', L ''O'', L ''N'', L ''M'', L ''L'', L ''K'', L ''J'',
        L ''A'', L ''H'', L ''G'', L ''F'', L ''E'', L ''D'', L ''C'', L ''B'']"
  by code_simp

section \<open>Boosting a candidate\<close>

lemma rank_upper:
  assumes srt: "sorted_wrt (\<lambda>a b. \<not> by_weight b a) ys"
    and mem: "c \<in> fst ` set ys"
    and same: "\<And>p. p \<in> set ys \<Longrightarrow> fst p = c \<Longrightarrow> snd p = wc"
  shows "rank c (map fst ys) \<le> length (filter (\<lambda>p. fst p \<noteq> c \<and> sint wc \<le> sint (snd p)) ys)"
proof -
  let ?tw = "takeWhile (\<lambda>p. fst p \<noteq> c) ys" and ?dw = "dropWhile (\<lambda>p. fst p \<noteq> c) ys"
  have dw: "?dw \<noteq> []" using mem by (auto simp: dropWhile_eq_Nil_conv)
  then obtain q qs where q: "?dw = q # qs" by (cases ?dw) auto
  have "fst q = c" using hd_dropWhile[of "\<lambda>p. fst p \<noteq> c" ys] dw q by auto
  moreover have "q \<in> set ys" using set_dropWhileD[of q "\<lambda>p. fst p \<noteq> c" ys] q by simp
  ultimately have sq: "snd q = wc" using same by blast
  have "sorted_wrt (\<lambda>a b. \<not> by_weight b a) (?tw @ ?dw)" using srt by simp
  then have "\<forall>x\<in>set ?tw. \<not> by_weight q x" unfolding sorted_wrt_append q by simp
  then have all: "\<forall>x\<in>set ?tw. fst x \<noteq> c \<and> sint wc \<le> sint (snd x)"
    using sq by (auto simp: by_weight_def not_less dest: set_takeWhileD)
  have "rank c (map fst ys) = length ?tw"
    by (simp add: rank_def takeWhile_map comp_def)
  also have "\<dots> = length (filter (\<lambda>p. fst p \<noteq> c \<and> sint wc \<le> sint (snd p)) ?tw)"
    using all by (simp add: filter_id_conv)
  also have "\<dots> \<le> length (filter (\<lambda>p. fst p \<noteq> c \<and> sint wc \<le> sint (snd p)) ys)"
  proof -
    have "filter (\<lambda>p. fst p \<noteq> c \<and> sint wc \<le> sint (snd p)) ys
        = filter (\<lambda>p. fst p \<noteq> c \<and> sint wc \<le> sint (snd p)) ?tw
          @ filter (\<lambda>p. fst p \<noteq> c \<and> sint wc \<le> sint (snd p)) ?dw"
      by (metis filter_append takeWhile_dropWhile_id)
    then show ?thesis by simp
  qed
  finally show ?thesis .
qed

lemma rank_lower:
  assumes srt: "sorted_wrt (\<lambda>a b. \<not> by_weight b a) ys"
    and mem: "c \<in> fst ` set ys"
    and same: "\<And>p. p \<in> set ys \<Longrightarrow> fst p = c \<Longrightarrow> snd p = wc"
  shows "length (filter (\<lambda>p. sint wc < sint (snd p)) ys) \<le> rank c (map fst ys)"
proof -
  let ?tw = "takeWhile (\<lambda>p. fst p \<noteq> c) ys" and ?dw = "dropWhile (\<lambda>p. fst p \<noteq> c) ys"
  have dw: "?dw \<noteq> []" using mem by (auto simp: dropWhile_eq_Nil_conv)
  then obtain q qs where q: "?dw = q # qs" by (cases ?dw) auto
  have "fst q = c" using hd_dropWhile[of "\<lambda>p. fst p \<noteq> c" ys] dw q by auto
  moreover have "q \<in> set ys" using set_dropWhileD[of q "\<lambda>p. fst p \<noteq> c" ys] q by simp
  ultimately have sq: "snd q = wc" using same by blast
  have "sorted_wrt (\<lambda>a b. \<not> by_weight b a) ?dw" using srt by simp
  then have "\<forall>x\<in>set qs. \<not> by_weight x q" unfolding q by simp
  then have "\<forall>x\<in>set ?dw. \<not> sint wc < sint (snd x)"
    unfolding q using sq by (auto simp: by_weight_def)
  then have none: "filter (\<lambda>p. sint wc < sint (snd p)) ?dw = []"
    by (simp add: filter_empty_conv)
  have "filter (\<lambda>p. sint wc < sint (snd p)) ys
      = filter (\<lambda>p. sint wc < sint (snd p)) ?tw @ filter (\<lambda>p. sint wc < sint (snd p)) ?dw"
    by (metis filter_append takeWhile_dropWhile_id)
  then have "length (filter (\<lambda>p. sint wc < sint (snd p)) ys)
      = length (filter (\<lambda>p. sint wc < sint (snd p)) ?tw)"
    using none by simp
  also have "\<dots> \<le> length ?tw" by simp
  also have "\<dots> = rank c (map fst ys)" by (simp add: rank_def takeWhile_map comp_def)
  finally show ?thesis .
qed

lemma sint_add_no_overflow:
  fixes a b :: "32 word"
  assumes "0 < sint b" "sint a + sint b < 2 ^ 31"
  shows "sint (a + b) = sint a + sint b"
proof -
  have "- (2 ^ 31) \<le> sint a" using sint_ge[of a] by simp
  then have "- (2 ^ 31) \<le> sint a + sint b" using assms(1) by linarith
  then show ?thesis using assms(2)
    by (simp add: sint_word_ariths signed_take_bit_int_eq_self)
qed

lemma rank_after_boost:
  assumes spec: "std_sort_spec by_weight srtw"
    and mem: "c \<in> set base"
  shows "rank c (map fst (srtw by_weight (map (\<lambda>x. (x, weight_of prefs x)) base)))
      \<le> length (filter (\<lambda>x. x \<noteq> c \<and> sint (weight_of prefs c) \<le> sint (weight_of prefs x)) base)"
proof -
  let ?xs = "map (\<lambda>x. (x, weight_of prefs x)) base"
  let ?ys = "srtw by_weight ?xs"
  have ms: "mset ?ys = mset ?xs" and so: "sorted_wrt (\<lambda>a b. \<not> by_weight b a) ?ys"
    using spec by (simp_all add: std_sort_spec_def)
  have st: "set ?ys = set ?xs" using ms by (rule mset_eq_setD)
  have m: "c \<in> fst ` set ?ys" using mem unfolding st by force
  have same: "\<And>p. p \<in> set ?ys \<Longrightarrow> fst p = c \<Longrightarrow> snd p = weight_of prefs c"
    unfolding st by auto
  have "rank c (map fst ?ys)
      \<le> length (filter (\<lambda>p. fst p \<noteq> c \<and> sint (weight_of prefs c) \<le> sint (snd p)) ?ys)"
    by (rule rank_upper[OF so m same])
  also have "\<dots> = length (filter (\<lambda>p. fst p \<noteq> c \<and> sint (weight_of prefs c) \<le> sint (snd p)) ?xs)"
    by (rule length_filter_mset[OF ms])
  also have "\<dots> = length (filter (\<lambda>x. x \<noteq> c \<and> sint (weight_of prefs c) \<le> sint (weight_of prefs x)) base)"
    by (simp add: filter_map comp_def)
  finally show ?thesis .
qed

lemma rank_before_boost:
  assumes spec: "std_sort_spec by_weight srtw"
    and mem: "c \<in> set base"
  shows "length (filter (\<lambda>x. sint (weight_of prefs c) < sint (weight_of prefs x)) base)
     \<le> rank c (map fst (srtw by_weight (map (\<lambda>x. (x, weight_of prefs x)) base)))"
proof -
  let ?xs = "map (\<lambda>x. (x, weight_of prefs x)) base"
  let ?ys = "srtw by_weight ?xs"
  have ms: "mset ?ys = mset ?xs" and so: "sorted_wrt (\<lambda>a b. \<not> by_weight b a) ?ys"
    using spec by (simp_all add: std_sort_spec_def)
  have st: "set ?ys = set ?xs" using ms by (rule mset_eq_setD)
  have m: "c \<in> fst ` set ?ys" using mem unfolding st by force
  have same: "\<And>p. p \<in> set ?ys \<Longrightarrow> fst p = c \<Longrightarrow> snd p = weight_of prefs c"
    unfolding st by auto
  have "length (filter (\<lambda>x. sint (weight_of prefs c) < sint (weight_of prefs x)) base)
      = length (filter (\<lambda>p. sint (weight_of prefs c) < sint (snd p)) ?xs)"
    by (simp add: filter_map comp_def)
  also have "\<dots> = length (filter (\<lambda>p. sint (weight_of prefs c) < sint (snd p)) ?ys)"
    by (rule length_filter_mset[OF ms, symmetric])
  also have "\<dots> \<le> rank c (map fst ?ys)"
    by (rule rank_lower[OF so m same])
  finally show ?thesis .
qed

text \<open>
  Claim C7 (as amended). Let the sorting procedure do what the standard asks of
  \<^verbatim>\<open>std::sort\<close>, let the boost \<open>n\<close> be positive, let the candidate \<open>c\<close> be among the
  base candidates of the key \<open>k\<close>, and let the weight recorded for \<open>c\<close> under \<open>k\<close> (0 if
  there is none) plus \<open>n\<close> not exceed the largest \<^verbatim>\<open>int\<close>. Then with the same
  dictionary, cache and other preferences, the rank of \<open>c\<close> in GetSmartSuggestions after
  AddUserPreference is at most its rank before; and so it is when the call after the
  boost runs on the cache that the call before the boost has left.
\<close>

theorem boost_keeps_rank:
  assumes spec: "std_sort_spec by_weight srtw"
    and pos: "0 < sint n"
    and fits: "sint (current_weight mgr k c) + sint n < 2 ^ 31"
    and mem: "c \<in> set (fst (GetCandidates srt d m_cache k))"
  shows "rank c (fst (GetSmartSuggestions srt srtw d m_cache (AddUserPreference mgr k c n) k))
       \<le> rank c (fst (GetSmartSuggestions srt srtw d m_cache mgr k))
     \<and> rank c (fst (GetSmartSuggestions srt srtw d
          (snd (GetSmartSuggestions srt srtw d m_cache mgr k)) (AddUserPreference mgr k c n) k))
       \<le> rank c (fst (GetSmartSuggestions srt srtw d m_cache mgr k))"
proof -
  have same_cache: "rank c (fst (GetSmartSuggestions srt srtw d m_cache (AddUserPreference mgr k c n) k))
       \<le> rank c (fst (GetSmartSuggestions srt srtw d m_cache mgr k))"
  proof -
  define base where "base = fst (GetCandidates srt d m_cache k)"
  define inner where "inner = (case m_userPreferences mgr k of Some prefs \<Rightarrow> prefs | None \<Rightarrow> Map.empty)"
  define old where "old = weight_of inner c"
  define prefs' where "prefs' = inner(c \<mapsto> old + n)"
  have cw: "current_weight mgr k c = old"
    by (simp add: current_weight_def old_def inner_def weight_of_def split: option.splits)
  have sum: "sint (old + n) = sint old + sint n"
    using sint_add_no_overflow[OF pos] fits cw by simp
  have wc: "weight_of prefs' c = old + n" by (simp add: prefs'_def weight_of_def)
  have wx: "\<And>x. x \<noteq> c \<Longrightarrow> weight_of prefs' x = weight_of inner x"
    by (simp add: prefs'_def weight_of_def)
  have after: "fst (GetSmartSuggestions srt srtw d m_cache (AddUserPreference mgr k c n) k)
      = map fst (srtw by_weight (map (\<lambda>x. (x, weight_of prefs' x)) base))"
    by (simp add: GetSmartSuggestions_def AddUserPreference_def Let_def base_def prefs'_def
        old_def inner_def weight_of_def split: prod.splits)
  have mem': "c \<in> set base" using mem by (simp add: base_def)
  have up: "rank c (fst (GetSmartSuggestions srt srtw d m_cache (AddUserPreference mgr k c n) k))
      \<le> length (filter (\<lambda>x. x \<noteq> c \<and> sint old + sint n \<le> sint (weight_of inner x)) base)"
  proof -
    have "rank c (map fst (srtw by_weight (map (\<lambda>x. (x, weight_of prefs' x)) base)))
      \<le> length (filter (\<lambda>x. x \<noteq> c \<and> sint (weight_of prefs' c) \<le> sint (weight_of prefs' x)) base)"
      by (rule rank_after_boost[OF spec mem'])
    also have "\<dots> \<le> length (filter (\<lambda>x. x \<noteq> c \<and> sint old + sint n \<le> sint (weight_of inner x)) base)"
      by (rule length_filter_mono) (auto simp: wc wx sum)
    finally show ?thesis unfolding after .
  qed
  show ?thesis
  proof (cases "m_userPreferences mgr k")
    case None
    then have "inner = Map.empty" by (simp add: inner_def)
    then have "old = 0" "\<And>x. weight_of inner x = 0" by (simp_all add: old_def weight_of_def)
    then have "filter (\<lambda>x. x \<noteq> c \<and> sint old + sint n \<le> sint (weight_of inner x)) base = []"
      using pos by (simp add: filter_empty_conv)
    then show ?thesis using up by simp
  next
    case (Some prefs)
    then have inn: "inner = prefs" by (simp add: inner_def)
    have before: "fst (GetSmartSuggestions srt srtw d m_cache mgr k)
        = map fst (srtw by_weight (map (\<lambda>x. (x, weight_of inner x)) base))"
      using Some by (simp add: GetSmartSuggestions_def Let_def base_def inn split: prod.splits)
    have "length (filter (\<lambda>x. x \<noteq> c \<and> sint old + sint n \<le> sint (weight_of inner x)) base)
        \<le> length (filter (\<lambda>x. sint (weight_of inner c) < sint (weight_of inner x)) base)"
      by (rule length_filter_mono) (use pos in \<open>auto simp: old_def\<close>)
    also have "\<dots> \<le> rank c (map fst (srtw by_weight (map (\<lambda>x. (x, weight_of inner x)) base)))"
      by (rule rank_before_boost[OF spec mem'])
    finally show ?thesis using up unfolding before by linarith
  qed
  qed
  have "fst (GetSmartSuggestions srt srtw d (snd (GetSmartSuggestions srt srtw d m_cache mgr k))
          (AddUserPreference mgr k c n) k)
      = fst (GetSmartSuggestions srt srtw d m_cache (AddUserPreference mgr k c n) k)"
    by (rule suggestions_after_suggestions)
  then show ?thesis using same_cache by simp
qed


text \<open>
  The theorem for the manager \<open>mgr_other\<close> and the second base candidate B: before the
  boost it has rank 1, after a boost by 1 it has rank 0.
\<close>

theorem boost_keeps_rank_witness:
  "rank (L ''B'') (fst (GetSmartSuggestions insertion_sort insertion_sort dict_two Map.empty
        (AddUserPreference mgr_other (L ''k'') (L ''B'') 1) (L ''k'')))
     \<le> rank (L ''B'') (fst (GetSmartSuggestions insertion_sort insertion_sort dict_two Map.empty
        mgr_other (L ''k'')))
   \<and> rank (L ''B'') (fst (GetSmartSuggestions insertion_sort insertion_sort dict_two Map.empty
        mgr_other (L ''k''))) = 1
   \<and> rank (L ''B'') (fst (GetSmartSuggestions insertion_sort insertion_sort dict_two Map.empty
        (AddUserPreference mgr_other (L ''k'') (L ''B'') 1) (L ''k''))) = 0"
proof -
  have pos: "0 < sint (1 :: 32 word)" by simp
  have fits: "sint (current_weight mgr_other (L ''k'') (L ''B'')) + sint (1 :: 32 word) < 2 ^ 31"
  proof -
    have "current_weight mgr_other (L ''k'') (L ''B'') = 0" by code_simp
    then show ?thesis by simp
  qed
  have mem: "L ''B'' \<in> set (fst (GetCandidates insertion_sort dict_two Map.empty (L ''k'')))"
  proof -
    have "fst (GetCandidates insertion_sort dict_two Map.empty (L ''k'')) = [L ''A'', L ''B'']"
      by code_simp
    then show ?thesis by simp
  qed
  have b: "rank (L ''B'') (fst (GetSmartSuggestions insertion_sort insertion_sort dict_two Map.empty
        mgr_other (L ''k''))) = 1"
    by code_simp
  have a: "rank (L ''B'') (fst (GetSmartSuggestions insertion_sort insertion_sort dict_two Map.empty
        (AddUserPreference mgr_other (L ''k'') (L ''B'') 1) (L ''k''))) = 0"
    by code_simp
  show ?thesis
    using boost_keeps_rank[OF insertion_sort_spec[OF strict_weak_by_weight] pos fits mem] a b
    by simp
qed

text \<open>
  The claim as the spec states it holds for every positive boost. In the manager
  \<open>mgr_max\<close> the candidate A has the weight \<^verbatim>\<open>INT_MAX\<close> under \<^verbatim>\<open>k\<close> and rank 0. A
  boost by 1 wraps its weight around to \<^verbatim>\<open>INT_MIN\<close>, and A falls behind B to rank 1.
\<close>

theorem boost_overflow_lowers_rank:
  "0 < sint (1 :: 32 word)
   \<and> sint (current_weight mgr_max (L ''k'') (L ''A'')) = 2147483647
   \<and> sint (current_weight (AddUserPreference mgr_max (L ''k'') (L ''A'') 1) (L ''k'') (L ''A''))
       = - 2147483648
   \<and> rank (L ''A'') (fst (GetSmartSuggestions insertion_sort insertion_sort dict_two Map.empty
        mgr_max (L ''k''))) = 0
   \<and> rank (L ''A'') (fst (GetSmartSuggestions insertion_sort insertion_sort dict_two Map.empty
        (AddUserPreference mgr_max (L ''k'') (L ''A'') 1) (L ''k''))) = 1"
  by code_simp

section \<open>Numbers in the dictionary file\<close>

lemma decimal_from_Cons [simp]:
  "decimal_from acc (c # ds) = decimal_from (10 * acc + (unat c - 48)) ds"
  by (simp add: decimal_from_def)

lemma decimal_from_Nil [simp]: "decimal_from acc [] = acc"
  by (simp add: decimal_from_def)

lemma decimal_from_mono: "a \<le> b \<Longrightarrow> decimal_from a ds \<le> decimal_from b ds"
  by (induction ds arbitrary: a b) auto

lemma decimal_from_ge: "a \<le> decimal_from a ds"
proof (induction ds arbitrary: a)
  case Nil
  then show ?case by simp
next
  case (Cons c ds)
  have "a \<le> 10 * a + (unat c - 48)" by simp
  also have "\<dots> \<le> decimal_from (10 * a + (unat c - 48)) ds" by (rule Cons.IH)
  finally show ?case by simp
qed

lemma decimal_from_clamp:
  "min (decimal_from (min a 4294967295) ds) 4294967295 = min (decimal_from a ds) (4294967295::nat)"
proof (cases "a \<le> 4294967295")
  case True
  then show ?thesis by (simp add: min_def)
next
  case False
  then have "4294967295 \<le> decimal_from a ds" "4294967295 \<le> decimal_from 4294967295 ds"
    using decimal_from_ge[of a ds] decimal_from_ge[of 4294967295 ds] by simp_all
  then show ?thesis using False by (simp add: min_def)
qed

lemma iswdigit_unat: "iswdigit c \<longleftrightarrow> 48 \<le> unat c \<and> unat c \<le> 57"
  by (simp add: iswdigit_def word_le_nat_alt)

lemma unat_word_of_int_small: "n < 2 ^ 64 \<Longrightarrow> unat (word_of_int (int n) :: 64 word) = n"
  by (simp add: unat_of_nat)

lemma digit_unat:
  assumes "iswdigit c"
  shows "unat (word_of_int (uint c - 0x30) :: 64 word) = unat c - 48"
proof -
  have b: "48 \<le> unat c" "unat c \<le> 57" using assms by (simp_all add: iswdigit_unat)
  have k: "uint c - 0x30 = int (unat c - 48)" using b by (simp add: of_nat_diff)
  have "unat c - 48 < 2 ^ 64" using b by simp
  then have "unat (word_of_int (int (unat c - 48)) :: 64 word) = unat c - 48"
    by (rule unat_word_of_int_small)
  then show ?thesis by (simp only: k)
qed

lemma clamp_step:
  assumes "iswdigit c" "unat v \<le> 4294967295"
  shows "unat (clamp32 (v * 10 + word_of_int (uint c - 0x30))) = min (10 * unat v + (unat c - 48)) 4294967295"
proof -
  define dd where "dd = (word_of_int (uint c - 0x30) :: 64 word)"
  have d: "unat dd = unat c - 48" unfolding dd_def by (rule digit_unat[OF assms(1)])
  have d9: "unat c - 48 \<le> 9" using assms(1) by (auto simp: iswdigit_unat)
  have m: "unat (v * 10) = unat v * 10"
    using assms(2) by (simp add: unat_word_ariths)
  have s: "unat (v * 10 + dd) = 10 * unat v + (unat c - 48)"
    using assms(2) d9 by (simp add: unat_word_ariths(1)[of "v * 10" dd] m d)
  have "unat (clamp32 (v * 10 + dd)) = min (10 * unat v + (unat c - 48)) 4294967295"
    by (simp add: clamp32_def word_less_nat_alt s min_def)
  then show ?thesis unfolding dd_def .
qed

lemma digit_loop_value:
  assumes "\<forall>c\<in>set ds. iswdigit c" "case rest of [] \<Rightarrow> True | c # _ \<Rightarrow> \<not> iswdigit c"
    "unat v \<le> 4294967295"
  shows "\<exists>v'. digit_loop (ds @ rest) v = (v', rest) \<and> unat v' = min (decimal_from (unat v) ds) 4294967295"
  using assms
proof (induction ds arbitrary: v)
  case Nil
  then show ?case by (cases rest) (auto simp: min_def)
next
  case (Cons c ds)
  let ?v = "clamp32 (v * 10 + word_of_int (uint c - 0x30))"
  have c: "iswdigit c" using Cons.prems(1) by simp
  have u: "unat ?v = min (10 * unat v + (unat c - 48)) 4294967295"
    by (rule clamp_step[OF c Cons.prems(3)])
  then have "unat ?v \<le> 4294967295" by simp
  then obtain v' where 1: "digit_loop (ds @ rest) ?v = (v', rest)"
    and 2: "unat v' = min (decimal_from (unat ?v) ds) 4294967295"
    using Cons.IH[of ?v] Cons.prems(1,2) by auto
  have "unat v' = min (decimal_from (unat v) (c # ds)) 4294967295"
    unfolding 2 u using decimal_from_clamp[of "10 * unat v + (unat c - 48)" ds] by simp
  then show ?case using 1 c by (simp)
qed

lemma SkipWs_spaces:
  "\<forall>c\<in>set ws. iswspace c \<Longrightarrow> SkipWs (ws @ s) = SkipWs s"
  by (induction ws) auto

lemma digit_not_space: "iswdigit c \<Longrightarrow> \<not> iswspace c"
  by (auto simp: iswdigit_def iswspace_def word_le_nat_alt)

text \<open>
  Claim C8. Let the text be white space \<open>ws\<close>, then a non-empty run of digits \<open>ds\<close>,
  then a rest that is empty or starts with a character that is not a digit. Then
  \<^verbatim>\<open>ParseUnsigned\<close> succeeds, stops in front of the rest, and returns the value of the
  literal \<open>ds\<close> if it is at most \<open>2 ^ 32 - 1\<close>, and \<open>2 ^ 32 - 1\<close> if it is larger. If the
  text after its leading white space is empty or starts with a character that is not a
  digit, \<^verbatim>\<open>ParseUnsigned\<close> fails.
\<close>

theorem ParseUnsigned_clamps:
  "((\<forall>c\<in>set ws. iswspace c) \<and> ds \<noteq> [] \<and> (\<forall>c\<in>set ds. iswdigit c)
      \<and> (case rest of [] \<Rightarrow> True | c # _ \<Rightarrow> \<not> iswdigit c)
     \<longrightarrow> ParseUnsigned (ws @ ds @ rest)
          = Some (word_of_nat (min (decimal_value ds) (2 ^ 32 - 1)), rest))
   \<and> ((case SkipWs s of [] \<Rightarrow> True | c # _ \<Rightarrow> \<not> iswdigit c) \<longrightarrow> ParseUnsigned s = None)"
proof (intro conjI impI)
  assume a: "(\<forall>c\<in>set ws. iswspace c) \<and> ds \<noteq> [] \<and> (\<forall>c\<in>set ds. iswdigit c)
      \<and> (case rest of [] \<Rightarrow> True | c # _ \<Rightarrow> \<not> iswdigit c)"
  then obtain d ds' where ds: "ds = d # ds'" by (cases ds) auto
  have d: "iswdigit d" using a ds by simp
  have ws: "SkipWs (ws @ ds @ rest) = d # ds' @ rest"
    using a ds d by (simp add: SkipWs_spaces digit_not_space)
  obtain v' where 1: "digit_loop (ds @ rest) 0 = (v', rest)"
    and 2: "unat v' = min (decimal_from (unat (0::64 word)) ds) 4294967295"
    using digit_loop_value[of ds rest 0] a by auto
  have "ucast v' = (word_of_nat (unat v') :: 32 word)" by simp
  then have "ucast v' = (word_of_nat (min (decimal_value ds) (2 ^ 32 - 1)) :: 32 word)"
    using 2 by (simp add: decimal_value_def)
  then show "ParseUnsigned (ws @ ds @ rest)
      = Some (word_of_nat (min (decimal_value ds) (2 ^ 32 - 1)), rest)"
    using 1 ws d ds unfolding ParseUnsigned_def by (simp del: digit_loop.simps)
next
  assume "case SkipWs s of [] \<Rightarrow> True | c # _ \<Rightarrow> \<not> iswdigit c"
  then show "ParseUnsigned s = None"
    by (auto simp: ParseUnsigned_def split: list.splits)
qed

text \<open>
  The theorem at a literal above the 32-bit range after a space, at the largest value
  of the range, at a literal with leading zeros that ends the text, and at a minus sign.
\<close>

theorem ParseUnsigned_clamps_witness:
  "ParseUnsigned (L '' 99999999999,'') = Some (0xFFFFFFFF, L '','')
   \<and> ParseUnsigned (L ''4294967295}'') = Some (0xFFFFFFFF, L ''}'')
   \<and> ParseUnsigned (L ''007'') = Some (7, [])
   \<and> ParseUnsigned (L '' -1'') = None"
  using ParseUnsigned_clamps[of "L '' ''" "L ''99999999999''" "L '',''" "L '' -1''"]
    ParseUnsigned_clamps[of "[]" "L ''4294967295''" "L ''}''" "[]"]
    ParseUnsigned_clamps[of "[]" "L ''007''" "[]" "[]"]
  by (simp add: L_def iswspace_def iswdigit_def decimal_value_def decimal_from_def)

section \<open>Charset conversion\<close>

text \<open>
  Claim C9. For every text, every pair of tables and every pair of charset names other
  than (\<^verbatim>\<open>Simplified\<close>, \<^verbatim>\<open>Traditional\<close>) and (\<^verbatim>\<open>Traditional\<close>, \<^verbatim>\<open>Simplified\<close>),
  \<^verbatim>\<open>Convert\<close> returns the text unchanged; and for all names the result has as many
  code units as the text.
\<close>

theorem Convert_identity_and_length:
  "(\<not> (from = L ''Simplified'' \<and> to = L ''Traditional'')
      \<and> \<not> (from = L ''Traditional'' \<and> to = L ''Simplified'')
     \<longrightarrow> Convert cv text from to = text)
   \<and> length (Convert cv text from to) = length text"
  by (simp add: Convert_def)

text \<open>
  The theorem at equal names, at a name in lower case and at a name that is not known;
  and the length at the two pairs that convert.
\<close>

theorem Convert_identity_and_length_witness:
  "Convert CharsetConverter_new (L ''AB?'') (L ''Simplified'') (L ''Simplified'') = L ''AB?''
   \<and> Convert CharsetConverter_new (L ''AB?'') (L ''simplified'') (L ''Traditional'') = L ''AB?''
   \<and> Convert CharsetConverter_new (L ''AB?'') (L ''Simplified'') (L ''Klingon'') = L ''AB?''
   \<and> length (Convert CharsetConverter_new (L ''AB?'') (L ''Simplified'') (L ''Traditional'')) = 3
   \<and> length (Convert CharsetConverter_new (L ''AB?'') (L ''Traditional'') (L ''Simplified'')) = 3"
  using Convert_identity_and_length[of "L ''Simplified''" "L ''Simplified''" CharsetConverter_new "L ''AB?''"]
    Convert_identity_and_length[of "L ''simplified''" "L ''Traditional''" CharsetConverter_new "L ''AB?''"]
    Convert_identity_and_length[of "L ''Simplified''" "L ''Klingon''" CharsetConverter_new "L ''AB?''"]
    Convert_identity_and_length[of "L ''Simplified''" "L ''Traditional''" CharsetConverter_new "L ''AB?''"]
    Convert_identity_and_length[of "L ''Traditional''" "L ''Simplified''" CharsetConverter_new "L ''AB?''"]
  by (simp add: L_def)

section \<open>Selection state\<close>

lemma sint_of_nat_le: "sint (word_of_nat n :: 32 word) \<le> int n"
proof -
  have "(0::int) \<le> uint (word_of_nat n :: 32 word)" by (rule uint_ge_0)
  moreover have "- (2 ^ 31) \<le> (0::int)" by simp
  ultimately have "- (2 ^ 31) \<le> uint (word_of_nat n :: 32 word)" by (rule order_trans[rotated])
  then have "sint (word_of_nat n :: 32 word) \<le> uint (word_of_nat n :: 32 word)"
    by (simp add: sint_uint signed_take_bit_int_less_eq_self_iff)
  also have "\<dots> \<le> int n"
    by (simp add: unsigned_of_nat)
  finally show ?thesis .
qed

text \<open>
  Claim C10. In every state of the manager \<^verbatim>\<open>HasValidSelection\<close> is true exactly when
  the stored candidate is not the empty string. A \<^verbatim>\<open>SelectCandidate\<close> that returns
  true was given an index inside the list and has stored the candidate at that index;
  if that candidate is the empty string, \<^verbatim>\<open>HasValidSelection\<close> is false afterwards. A
  \<^verbatim>\<open>SelectCandidate\<close> that returns false leaves the manager as it was.
  \<^verbatim>\<open>ClearSelection\<close> and \<^verbatim>\<open>Reset\<close> make \<^verbatim>\<open>HasValidSelection\<close> false.
\<close>

theorem selection_validity:
  "(HasValidSelection mgr \<longleftrightarrow> m_selectedCandidate mgr \<noteq> [])
   \<and> (fst (SelectCandidate mgr index cands) \<longrightarrow>
        0 \<le> sint index \<and> nat (sint index) < length cands
        \<and> m_selectedCandidate (snd (SelectCandidate mgr index cands)) = cands ! nat (sint index))
   \<and> (fst (SelectCandidate mgr index cands) \<and> cands ! nat (sint index) = [] \<longrightarrow>
        \<not> HasValidSelection (snd (SelectCandidate mgr index cands)))
   \<and> (\<not> fst (SelectCandidate mgr index cands) \<longrightarrow> snd (SelectCandidate mgr index cands) = mgr)
   \<and> \<not> HasValidSelection (ClearSelection mgr)
   \<and> \<not> HasValidSelection (fst (Reset (mgr, m_cache)))"
proof -
  have inr: "0 \<le> sint index \<and> nat (sint index) < length cands"
    if "fst (SelectCandidate mgr index cands)"
  proof -
    from that have "0 \<le> sint index" "sint index < sint (word_of_nat (length cands) :: 32 word)"
      by (auto simp: SelectCandidate_def split: if_splits)
    then show ?thesis using sint_of_nat_le[of "length cands"] by linarith
  qed
  show ?thesis
    using inr by (auto simp: HasValidSelection_def SelectCandidate_def ClearSelection_def Reset_def
        split: if_splits)
qed

text \<open>
  The theorem for a new manager and the list of A and the empty string: index 1 selects
  the empty string, index 0 selects A, index 2 and index -1 are refused.
\<close>

theorem selection_validity_witness:
  "fst (SelectCandidate CandidateManager_new 1 [L ''A'', []])
   \<and> \<not> HasValidSelection (snd (SelectCandidate CandidateManager_new 1 [L ''A'', []]))
   \<and> HasValidSelection (snd (SelectCandidate CandidateManager_new 0 [L ''A'', []]))
   \<and> SelectCandidate (snd (SelectCandidate CandidateManager_new 0 [L ''A'', []])) 2 [L ''A'', []]
       = (False, snd (SelectCandidate CandidateManager_new 0 [L ''A'', []]))
   \<and> SelectCandidate (snd (SelectCandidate CandidateManager_new 0 [L ''A'', []])) (- 1) [L ''A'', []]
       = (False, snd (SelectCandidate CandidateManager_new 0 [L ''A'', []]))
   \<and> \<not> HasValidSelection (fst (Reset (snd (SelectCandidate CandidateManager_new 0 [L ''A'', []]),
        Map.empty)))"
proof -
  let ?m = "snd (SelectCandidate CandidateManager_new 0 [L ''A'', []])"
  have 1: "fst (SelectCandidate CandidateManager_new 1 [L ''A'', []])"
    "[L ''A'', []] ! nat (sint (1 :: 32 word)) = []"
    by (simp_all add: SelectCandidate_def)
  have 2: "\<not> fst (SelectCandidate ?m 2 [L ''A'', []])"
    "\<not> fst (SelectCandidate ?m (- 1) [L ''A'', []])"
    by (simp_all add: SelectCandidate_def)
  have 3: "m_selectedCandidate ?m \<noteq> []"
    by (simp add: SelectCandidate_def L_def)
  show ?thesis
    using selection_validity[of CandidateManager_new 1 "[L ''A'', []]" Map.empty]
      selection_validity[of ?m 2 "[L ''A'', []]" Map.empty]
      selection_validity[of ?m "- 1" "[L ''A'', []]" Map.empty]
      1 2 3
    by (simp add: prod_eq_iff)
qed

end
